theory Spec2Isabelle
  imports Main "HOL-Library.AList"
begin

section \<open>Raw directory records\<close>

text \<open>
  The transport hands the builder decoded JSON. A JSON object is a Python \<open>dict\<close>; it is
  modelled as an association list that denotes the dictionary \<open>map_of d\<close> (the first binding
  of a key is the one that counts). Numbers are modelled as integers.
\<close>

datatype json =
    JNull
  | JBool bool
  | JNum int
  | JStr string
  | JArr "json list"
  | JObj "(string \<times> json) list"

type_synonym raw = "(string \<times> json) list"

text \<open>
  \<^verbatim>\<open>m = {k: v for k, v in m.items() if v is not None}\<close>:
  the dictionary denoted by \<open>m\<close>, without its \<open>None\<close> values.
\<close>

definition strip_none :: "raw \<Rightarrow> raw" where
  "strip_none m = filter (\<lambda>kv. snd kv \<noteq> JNull) (AList.clearjunk m)"

text \<open>Exceptions that can leave the builder.\<close>

datatype error =
    KeyError json
  | NameError
  | TypeError
  | AttributeError
  | ValidationError
  | HTTPError


section \<open>Entity models\<close>

text \<open>
  Objects live in a store; a reference is an index into it, so that two dictionaries holding
  the same object hold the same reference. The four constructors are the four model classes;
  the first two arguments are the inherited fields \<open>id\<close> and \<open>display_name\<close>.
  \<open>GraphUser\<close> adds \<open>mail\<close> and \<open>active\<close>, \<open>GraphServicePrincipal\<close> adds
  \<open>application_id\<close> and \<open>active\<close>, \<open>GraphGroup\<close> adds \<open>members\<close>, an optional dictionary
  from identifier to object.
\<close>

type_synonym ref = nat

datatype 'm entity =
    GraphBase string string
  | GraphUser string string string bool
  | GraphServicePrincipal string string string bool
  | GraphGroup string string "(string \<times> 'm) list option"

fun ent_id :: "'m entity \<Rightarrow> string" where
  "ent_id (GraphBase i n) = i"
| "ent_id (GraphUser i n m a) = i"
| "ent_id (GraphServicePrincipal i n p a) = i"
| "ent_id (GraphGroup i n ms) = i"

fun display_name :: "'m entity \<Rightarrow> string" where
  "display_name (GraphBase i n) = n"
| "display_name (GraphUser i n m a) = n"
| "display_name (GraphServicePrincipal i n p a) = n"
| "display_name (GraphGroup i n ms) = n"

fun is_group :: "'m entity \<Rightarrow> bool" where
  "is_group (GraphGroup i n ms) = True"
| "is_group _ = False"

text \<open>
  Field validation as the validation library does it for input decoded from JSON, in its
  default (lax) mode: a \<open>str\<close> field accepts a string only; a \<open>bool\<close> field accepts a
  boolean, the integers 0 and 1, and a few spellings of yes and no, whatever their case.
\<close>

fun validate_str :: "json \<Rightarrow> string option" where
  "validate_str (JStr s) = Some s"
| "validate_str _ = None"

definition lower :: "char \<Rightarrow> char" where
  "lower c = (let n = (of_char c :: nat) in if 65 \<le> n \<and> n \<le> 90 then char_of (n + 32) else c)"

fun validate_bool :: "json \<Rightarrow> bool option" where
  "validate_bool (JBool b) = Some b"
| "validate_bool (JNum n) = (if n = 0 then Some False else if n = 1 then Some True else None)"
| "validate_bool (JStr s) =
     (if s = ''0'' \<or> map lower s \<in> set [''f'', ''n'', ''no'', ''off'', ''false''] then Some False
      else if s = ''1'' \<or> map lower s \<in> set [''t'', ''y'', ''on'', ''yes'', ''true''] then Some True
      else None)"
| "validate_bool _ = None"

text \<open>
  \<open>AliasChoices(a1, a2, ...)\<close>: the value of the first alias that is a key of the input.
\<close>

fun alias_choices :: "string list \<Rightarrow> raw \<Rightarrow> json option" where
  "alias_choices [] d = None"
| "alias_choices (a # as) d =
     (case map_of d a of Some v \<Rightarrow> Some v | None \<Rightarrow> alias_choices as d)"

text \<open>A required \<open>str\<close> field; \<open>None\<close> is a validation failure.\<close>

definition str_field :: "string list \<Rightarrow> raw \<Rightarrow> string option" where
  "str_field as d = (case alias_choices as d of None \<Rightarrow> None | Some v \<Rightarrow> validate_str v)"

text \<open>A \<open>bool\<close> field with a default; \<open>None\<close> is a validation failure.\<close>

definition bool_field :: "string list \<Rightarrow> bool \<Rightarrow> raw \<Rightarrow> bool option" where
  "bool_field as dflt d =
     (case alias_choices as d of None \<Rightarrow> Some dflt | Some v \<Rightarrow> validate_bool v)"

text \<open>\<open>GraphBase.model_validate\<close>: \<open>id\<close> and \<open>display_name\<close> (alias \<open>displayName\<close>).\<close>

definition GraphBase_model_validate :: "raw \<Rightarrow> error + 'm entity" where
  "GraphBase_model_validate d =
     (case (str_field [''id''] d, str_field [''displayName''] d) of
        (Some i, Some n) \<Rightarrow> Inr (GraphBase i n)
      | _ \<Rightarrow> Inl ValidationError)"

text \<open>
  \<open>GraphUser.model_validate\<close>: \<open>mail\<close> from \<open>mail\<close> or else \<open>mailNickname\<close>,
  \<open>active\<close> from \<open>accountEnabled\<close> with default \<open>True\<close>.
\<close>

definition GraphUser_model_validate :: "raw \<Rightarrow> error + 'm entity" where
  "GraphUser_model_validate d =
     (case (str_field [''id''] d, str_field [''displayName''] d,
            str_field [''mail'', ''mailNickname''] d,
            bool_field [''accountEnabled''] True d) of
        (Some i, Some n, Some m, Some a) \<Rightarrow> Inr (GraphUser i n m a)
      | _ \<Rightarrow> Inl ValidationError)"

text \<open>
  \<open>GraphServicePrincipal.model_validate\<close>: \<open>application_id\<close> from \<open>appId\<close>,
  \<open>active\<close> from \<open>accountEnabled\<close> with default \<open>True\<close>.
\<close>

definition GraphServicePrincipal_model_validate :: "raw \<Rightarrow> error + 'm entity" where
  "GraphServicePrincipal_model_validate d =
     (case (str_field [''id''] d, str_field [''displayName''] d,
            str_field [''appId''] d,
            bool_field [''accountEnabled''] True d) of
        (Some i, Some n, Some p, Some a) \<Rightarrow> Inr (GraphServicePrincipal i n p a)
      | _ \<Rightarrow> Inl ValidationError)"

text \<open>
  \<open>GraphGroup.model_validate\<close>. The field \<open>members\<close> is
  \<open>Optional[Dict[str, GraphBase]]\<close> with default \<open>{}\<close>: absent from the input it is the empty
  dictionary, \<open>null\<close> it is \<open>None\<close>, a JSON object it is validated value by value as
  \<open>GraphBase\<close>; anything else fails. The validated group holds its members as objects;
  they get their references when the group is stored.
\<close>

fun validate_member_values :: "(string \<times> json) list \<Rightarrow> (string \<times> unit entity) list option" where
  "validate_member_values [] = Some []"
| "validate_member_values ((k, JObj d) # kvs) =
     (case GraphBase_model_validate d of
        Inl e \<Rightarrow> None
      | Inr b \<Rightarrow> map_option ((#) (k, b)) (validate_member_values kvs))"
| "validate_member_values ((k, v) # kvs) = None"

definition members_field :: "raw \<Rightarrow> (string \<times> unit entity) list option option" where
  "members_field d =
     (case map_of d ''members'' of
        None \<Rightarrow> Some (Some [])
      | Some JNull \<Rightarrow> Some None
      | Some (JObj kvs) \<Rightarrow> map_option Some (validate_member_values (AList.clearjunk kvs))
      | Some _ \<Rightarrow> None)"

definition GraphGroup_model_validate :: "raw \<Rightarrow> error + (unit entity) entity" where
  "GraphGroup_model_validate d =
     (case (str_field [''id''] d, str_field [''displayName''] d, members_field d) of
        (Some i, Some n, Some ms) \<Rightarrow> Inr (GraphGroup i n ms)
      | _ \<Rightarrow> Inl ValidationError)"


section \<open>The run state\<close>

text \<open>
  \<open>users\<close>, \<open>service_principals\<close>, \<open>groups\<close> and \<open>errors\<close> are the fields of the
  \<open>GraphSyncObject\<close> that \<open>get_objects_for_sync\<close> builds and returns; \<open>heap\<close> is the store
  of the objects they refer to; \<open>r_local\<close> is the local variable \<open>r\<close> of
  \<open>get_objects_for_sync\<close>, unbound (\<open>None\<close>) until its first assignment.
  Two fields record what the run did and are read by no operation: \<open>fetched\<close>, the group
  identifiers whose members were requested from the transport, and \<open>validated\<close>, the raw
  records that a registration routine validated and stored.
  Logging is left out of the model. A reference held by a state that a run reaches always
  lies inside the store (\<open>wf_state\<close> below), so \<open>heap s ! a\<close> is the object it refers to.
\<close>

datatype pyval = Obj ref | Exc error

record state =
  users :: "(json \<times> ref) list"
  service_principals :: "(json \<times> ref) list"
  groups :: "(json \<times> ref) list"
  errors :: "(raw \<times> error) list"
  heap :: "ref entity list"
  r_local :: "pyval option"
  fetched :: "json list"
  validated :: "raw list"

definition GraphSyncObject :: state where
  "GraphSyncObject =
     \<lparr>users = [], service_principals = [], groups = [], errors = [], heap = [],
      r_local = None, fetched = [], validated = []\<rparr>"

text \<open>Lists and objects cannot be dictionary keys: \<open>id in d\<close> raises \<open>TypeError\<close> for them.\<close>

fun hashable :: "json \<Rightarrow> bool" where
  "hashable (JArr xs) = False"
| "hashable (JObj kvs) = False"
| "hashable _ = True"


section \<open>Registration routines\<close>

definition register_user :: "raw \<Rightarrow> state \<Rightarrow> error + (ref \<times> state)" where
  "register_user d s =
     (case map_of d ''id'' of
        None \<Rightarrow> Inl (KeyError (JStr ''id''))
      | Some i \<Rightarrow>
          if \<not> hashable i then Inl TypeError
          else (case map_of (users s) i of
                  Some a \<Rightarrow> Inr (a, s)
                | None \<Rightarrow>
                    (case GraphUser_model_validate d of
                       Inl e \<Rightarrow> Inl e
                     | Inr obj \<Rightarrow>
                         let a = length (heap s) in
                         Inr (a, s\<lparr>users := AList.update i a (users s),
                                   heap := heap s @ [obj],
                                   validated := validated s @ [d]\<rparr>))))"

definition register_service_principal :: "raw \<Rightarrow> state \<Rightarrow> error + (ref \<times> state)" where
  "register_service_principal d s =
     (case map_of d ''id'' of
        None \<Rightarrow> Inl (KeyError (JStr ''id''))
      | Some i \<Rightarrow>
          if \<not> hashable i then Inl TypeError
          else (case map_of (service_principals s) i of
                  Some a \<Rightarrow> Inr (a, s)
                | None \<Rightarrow>
                    (case GraphServicePrincipal_model_validate d of
                       Inl e \<Rightarrow> Inl e
                     | Inr obj \<Rightarrow>
                         let a = length (heap s) in
                         Inr (a, s\<lparr>service_principals := AList.update i a (service_principals s),
                                   heap := heap s @ [obj],
                                   validated := validated s @ [d]\<rparr>))))"

text \<open>
  Storing a validated group: its member objects, if the input carried any, are stored first,
  each under a fresh reference; the group follows them. \<open>GraphGroup.model_validate\<close> returns
  a \<open>GraphGroup\<close>; the last equation of \<open>store_group\<close> only makes the function total.
\<close>

fun store_members :: "(string \<times> unit entity) list \<Rightarrow> ref \<Rightarrow> (string \<times> ref) list" where
  "store_members [] a = []"
| "store_members ((k, b) # kbs) a = (k, a) # store_members kbs (Suc a)"

fun base_object :: "unit entity \<Rightarrow> ref entity" where
  "base_object e = GraphBase (ent_id e) (display_name e)"

fun store_group :: "(unit entity) entity \<Rightarrow> ref entity list \<Rightarrow> ref entity list" where
  "store_group (GraphGroup i n None) h = h @ [GraphGroup i n None]"
| "store_group (GraphGroup i n (Some kbs)) h =
     h @ map (base_object \<circ> snd) kbs @ [GraphGroup i n (Some (store_members kbs (length h)))]"
| "store_group e h = h @ [GraphBase (ent_id e) (display_name e)]"

definition register_group :: "raw \<Rightarrow> state \<Rightarrow> error + (ref \<times> state)" where
  "register_group d s =
     (case map_of d ''id'' of
        None \<Rightarrow> Inl (KeyError (JStr ''id''))
      | Some i \<Rightarrow>
          if \<not> hashable i then Inl TypeError
          else (case map_of (groups s) i of
                  Some a \<Rightarrow> Inr (a, s)
                | None \<Rightarrow>
                    (case GraphGroup_model_validate d of
                       Inl e \<Rightarrow> Inl e
                     | Inr obj \<Rightarrow>
                         let h = store_group obj (heap s); a = length h - 1 in
                         Inr (a, s\<lparr>groups := AList.update i a (groups s),
                                   heap := h,
                                   validated := validated s @ [d]\<rparr>))))"


section \<open>The transport\<close>

text \<open>
  The two HTTP calls are parameters of the model. A call either fails
  (\<open>raise_for_status\<close> raises) or yields the \<open>value\<close> member of the reply, \<open>None\<close> when the
  reply has none.
\<close>

datatype 'a response = Failure | Reply 'a

record transport =
  groups_named :: "string \<Rightarrow> raw list option response"
  members_of :: "json \<Rightarrow> raw list option response"

definition get_group_by_name :: "transport \<Rightarrow> string \<Rightarrow> error + raw option" where
  "get_group_by_name T name =
     (case groups_named T name of
        Failure \<Rightarrow> Inl HTTPError
      | Reply data \<Rightarrow>
          (case data of
             Some [g] \<Rightarrow> Inr (Some g)
           | _ \<Rightarrow> Inr None))"

definition get_group_members :: "transport \<Rightarrow> json \<Rightarrow> error + raw list option" where
  "get_group_members T group_id =
     (case members_of T group_id of
        Failure \<Rightarrow> Inl HTTPError
      | Reply v \<Rightarrow> Inr v)"


section \<open>The traversal\<close>

text \<open>An assignment \<open>r = _register_x(m)\<close>.\<close>

definition assign_r :: "error + (ref \<times> state) \<Rightarrow> error + state" where
  "assign_r res = (case res of Inl e \<Rightarrow> Inl e | Inr (a, s) \<Rightarrow> Inr (s\<lparr>r_local := Some (Obj a)\<rparr>))"

text \<open>\<open>group.members[k] = a\<close>, for the object \<open>grp\<close> of the store.\<close>

definition set_member :: "ref \<Rightarrow> string \<Rightarrow> ref \<Rightarrow> state \<Rightarrow> error + state" where
  "set_member grp k a s =
     (case heap s ! grp of
        GraphGroup i n (Some ms) \<Rightarrow>
          Inr (s\<lparr>heap := (heap s)[grp := GraphGroup i n (Some (AList.update k a ms))]\<rparr>)
      | GraphGroup i n None \<Rightarrow> Inl TypeError
      | _ \<Rightarrow> Inl AttributeError)"

text \<open>
  The end of the loop body:
  \<^verbatim>\<open>if isinstance(r, Exception): sync_data.errors.append((m, r))
else: group.members[r.id] = r\<close>
\<close>

definition link_member :: "raw \<Rightarrow> ref \<Rightarrow> state \<Rightarrow> error + state" where
  "link_member m grp s =
     (case r_local s of
        None \<Rightarrow> Inl NameError
      | Some (Exc e) \<Rightarrow> Inr (s\<lparr>errors := errors s @ [(m, e)]\<rparr>)
      | Some (Obj a) \<Rightarrow> set_member grp (ent_id (heap s ! a)) a s)"

text \<open>The body of \<open>for m in group_members\<close>: three tests in sequence, then the link.\<close>

definition process_member :: "raw \<Rightarrow> ref \<Rightarrow> state \<Rightarrow> error + state" where
  "process_member m0 grp s =
     (let m = strip_none m0 in
      case map_of m ''@odata.type'' of
        None \<Rightarrow> Inl (KeyError (JStr ''@odata.type''))
      | Some t \<Rightarrow>
          (case (if t = JStr ''#microsoft.graph.user''
                 then assign_r (register_user m s) else Inr s) of
             Inl e \<Rightarrow> Inl e
           | Inr s1 \<Rightarrow>
               (case (if t = JStr ''#microsoft.graph.servicePrincipal''
                      then assign_r (register_service_principal m s1) else Inr s1) of
                  Inl e \<Rightarrow> Inl e
                | Inr s2 \<Rightarrow>
                    (case (if t = JStr ''#microsoft.graph.group''
                           then assign_r (register_group m s2) else Inr s2) of
                       Inl e \<Rightarrow> Inl e
                     | Inr s3 \<Rightarrow> link_member m grp s3))))"

fun for_members :: "raw list \<Rightarrow> ref \<Rightarrow> state \<Rightarrow> error + state" where
  "for_members [] grp s = Inr s"
| "for_members (m # ms) grp s =
     (case process_member m grp s of
        Inl e \<Rightarrow> Inl e
      | Inr s' \<Rightarrow> for_members ms grp s')"

text \<open>
  The body of \<open>for idx, group_name in enumerate(group_names)\<close>. \<open>not group_info\<close> holds for
  \<open>None\<close> and for the empty dictionary. The index is used for logging only.
\<close>

definition process_group_name :: "transport \<Rightarrow> string \<Rightarrow> state \<Rightarrow> error + state" where
  "process_group_name T group_name s =
     (case get_group_by_name T group_name of
        Inl e \<Rightarrow> Inl e
      | Inr None \<Rightarrow> Inr s
      | Inr (Some group_info) \<Rightarrow>
          if group_info = [] then Inr s
          else
            (case map_of group_info ''id'' of
               None \<Rightarrow> Inl (KeyError (JStr ''id''))
             | Some gid \<Rightarrow>
                 (case get_group_members T gid of
                    Inl e \<Rightarrow> Inl e
                  | Inr group_members \<Rightarrow>
                      (case register_group group_info (s\<lparr>fetched := fetched s @ [gid]\<rparr>) of
                         Inl e \<Rightarrow> Inl e
                       | Inr (a, s1) \<Rightarrow>
                           (case map_of (groups s1) gid of
                              None \<Rightarrow> Inl (KeyError gid)
                            | Some grp \<Rightarrow>
                                (case group_members of
                                   None \<Rightarrow> Inl TypeError
                                 | Some ms \<Rightarrow> for_members ms grp s1))))))"

fun for_group_names :: "transport \<Rightarrow> string list \<Rightarrow> state \<Rightarrow> error + state" where
  "for_group_names T [] s = Inr s"
| "for_group_names T (g # gs) s =
     (case process_group_name T g s of
        Inl e \<Rightarrow> Inl e
      | Inr s' \<Rightarrow> for_group_names T gs s')"

definition get_objects_for_sync :: "transport \<Rightarrow> string list \<Rightarrow> error + state" where
  "get_objects_for_sync T group_names = for_group_names T group_names GraphSyncObject"

section \<open>Properties of a run\<close>

text \<open>
  \<open>registered s k a\<close>: the object \<open>a\<close> is stored under the identifier \<open>k\<close> in one of the
  three mappings of the result.
\<close>

definition registered :: "state \<Rightarrow> string \<Rightarrow> ref \<Rightarrow> bool" where
  "registered s k a \<longleftrightarrow>
     map_of (users s) (JStr k) = Some a
   \<or> map_of (service_principals s) (JStr k) = Some a
   \<or> map_of (groups s) (JStr k) = Some a"

text \<open>Every key of a mapping is the \<open>id\<close> of the object stored under it.\<close>

definition keyed :: "state \<Rightarrow> (json \<times> ref) list \<Rightarrow> bool" where
  "keyed s al \<longleftrightarrow>
     (\<forall>k a. map_of al k = Some a \<longrightarrow> a < length (heap s) \<and> k = JStr (ent_id (heap s ! a)))"

definition groups_are_groups :: "state \<Rightarrow> bool" where
  "groups_are_groups s \<longleftrightarrow> (\<forall>k a. map_of (groups s) k = Some a \<longrightarrow> is_group (heap s ! a))"

text \<open>All that the members dictionary of a group object holds is registered.\<close>

definition linked :: "state \<Rightarrow> bool" where
  "linked s \<longleftrightarrow>
     (\<forall>a i n ms. a < length (heap s) \<longrightarrow> heap s ! a = GraphGroup i n (Some ms) \<longrightarrow>
        (\<forall>k b. map_of ms k = Some b \<longrightarrow> registered s k b))"

text \<open>Once bound, \<open>r\<close> is a registered object.\<close>

definition r_registered :: "state \<Rightarrow> bool" where
  "r_registered s \<longleftrightarrow>
     (\<forall>v. r_local s = Some v \<longrightarrow>
        (\<exists>a. v = Obj a \<and> a < length (heap s) \<and> registered s (ent_id (heap s ! a)) a))"

text \<open>A group whose members were never requested has none.\<close>

definition unfetched_empty :: "state \<Rightarrow> bool" where
  "unfetched_empty s \<longleftrightarrow>
     (\<forall>k a. map_of (groups s) k = Some a \<longrightarrow> k \<notin> set (fetched s) \<longrightarrow>
        (\<exists>i n. heap s ! a = GraphGroup i n (Some [])))"

definition wf_state :: "state \<Rightarrow> bool" where
  "wf_state s \<longleftrightarrow>
     keyed s (users s) \<and> keyed s (service_principals s) \<and> keyed s (groups s)
   \<and> groups_are_groups s \<and> linked s \<and> r_registered s \<and> unfetched_empty s"

text \<open>What a registration that returns \<open>a\<close> leaves behind.\<close>

definition reg_post :: "state \<Rightarrow> ref \<Rightarrow> state \<Rightarrow> bool" where
  "reg_post s a s' \<longleftrightarrow>
     wf_state s' \<and> a < length (heap s') \<and> registered s' (ent_id (heap s' ! a)) a
   \<and> length (heap s) \<le> length (heap s') \<and> fetched s' = fetched s \<and> r_local s' = r_local s
   \<and> errors s' = errors s
   \<and> (\<forall>x < length (heap s). heap s' ! x = heap s ! x)"

text \<open>The invariant of the loop over the members of the group object \<open>grp\<close>.\<close>

definition loop_inv :: "ref \<Rightarrow> state \<Rightarrow> bool" where
  "loop_inv grp s \<longleftrightarrow>
     wf_state s \<and> grp < length (heap s) \<and> JStr (ent_id (heap s ! grp)) \<in> set (fetched s)"

text \<open>
  The transport queries select \<open>id,displayName\<close> for a group looked up by name and
  \<open>id,displayName,mail,mailNickname,appId,accountEnabled\<close> for the members of a group, so
  the records that come back have no \<open>members\<close> field. The invariant needs less than that:
  no record that the run validates as a group (the record a name of the list resolves to, a
  member tagged as a group) may bring a \<open>members\<close> object with entries of its own.
\<close>

definition brings_members :: "raw \<Rightarrow> bool" where
  "brings_members d \<longleftrightarrow>
     (case map_of d ''members'' of Some (JObj kvs) \<Rightarrow> kvs \<noteq> [] | _ \<Rightarrow> False)"

definition is_group_record :: "raw \<Rightarrow> bool" where
  "is_group_record m \<longleftrightarrow>
     map_of (strip_none m) ''@odata.type'' = Some (JStr ''#microsoft.graph.group'')"

definition no_members_brought :: "transport \<Rightarrow> string list \<Rightarrow> bool" where
  "no_members_brought T names \<longleftrightarrow>
     (\<forall>name\<in>set names. \<forall>group_info. get_group_by_name T name = Inr (Some group_info) \<longrightarrow>
        \<not> brings_members group_info
      \<and> (\<forall>gid ms. map_of group_info ''id'' = Some gid \<longrightarrow>
            get_group_members T gid = Inr (Some ms) \<longrightarrow>
            (\<forall>m\<in>set ms. is_group_record m \<longrightarrow> \<not> brings_members m)))"

text \<open>
  The replies that the two queries can bring back: a record has the selected fields at most,
  besides annotations such as \<open>@odata.type\<close>. The field lists are those of the query strings
  in \<open>get_group_by_name\<close> and in \<open>get_group_members\<close>.
\<close>

definition selected :: "string list \<Rightarrow> raw \<Rightarrow> bool" where
  "selected fs d \<longleftrightarrow> (\<forall>k\<in>fst ` set d. k \<in> set fs \<or> take 1 k = ''@'')"

definition obeys_select :: "transport \<Rightarrow> bool" where
  "obeys_select T \<longleftrightarrow>
     (\<forall>name xs. groups_named T name = Reply (Some xs) \<longrightarrow>
        (\<forall>g\<in>set xs. selected [''id'', ''displayName''] g))
   \<and> (\<forall>gid ms. members_of T gid = Reply (Some ms) \<longrightarrow>
        (\<forall>m\<in>set ms. selected [''id'', ''displayName'', ''mail'', ''mailNickname'', ''appId'',
                                 ''accountEnabled''] m))"

text \<open>The groups mapping of a state, whatever the records brought.\<close>

definition groups_ok :: "state \<Rightarrow> bool" where
  "groups_ok s \<longleftrightarrow> keyed s (groups s) \<and> groups_are_groups s"

text \<open>
  \<open>extends s s'\<close>: what \<open>s\<close> has registered, \<open>s'\<close> has registered under the same key and
  reference; the store has only grown, and an object has kept its identifier and its kind.
\<close>

definition extends :: "state \<Rightarrow> state \<Rightarrow> bool" where
  "extends s s' \<longleftrightarrow>
     (\<forall>i a. map_of (users s) i = Some a \<longrightarrow> map_of (users s') i = Some a)
   \<and> (\<forall>i a. map_of (service_principals s) i = Some a \<longrightarrow>
          map_of (service_principals s') i = Some a)
   \<and> (\<forall>i a. map_of (groups s) i = Some a \<longrightarrow> map_of (groups s') i = Some a)
   \<and> length (heap s) \<le> length (heap s')
   \<and> (\<forall>x<length (heap s). ent_id (heap s' ! x) = ent_id (heap s ! x)
          \<and> (is_group (heap s ! x) \<longrightarrow> is_group (heap s' ! x)))"

text \<open>
  \<open>later s s'\<close>: the run, being in state \<open>s\<close>, can be in state \<open>s'\<close> afterwards: after
  any number of registrations, of passes through the body of the member loop, of passes
  through the body of the loop over the names, and of entries in the fetch log.
\<close>

inductive later :: "state \<Rightarrow> state \<Rightarrow> bool" where
  now: "later s s"
| step_user: "later s s1 \<Longrightarrow> register_user d s1 = Inr (a, s2) \<Longrightarrow> later s s2"
| step_service_principal:
    "later s s1 \<Longrightarrow> register_service_principal d s1 = Inr (a, s2) \<Longrightarrow> later s s2"
| step_group: "later s s1 \<Longrightarrow> register_group d s1 = Inr (a, s2) \<Longrightarrow> later s s2"
| step_member: "later s s1 \<Longrightarrow> process_member m grp s1 = Inr s2 \<Longrightarrow> later s s2"
| step_name: "later s s1 \<Longrightarrow> process_group_name T g s1 = Inr s2 \<Longrightarrow> later s s2"
| step_fetch: "later s s1 \<Longrightarrow> later s (s1\<lparr>fetched := f\<rparr>)"


text \<open>The group identifier a name of the input list resolves to, if the name is not skipped.\<close>

definition resolved_id :: "transport \<Rightarrow> string \<Rightarrow> json option" where
  "resolved_id T name =
     (case get_group_by_name T name of
        Inr (Some group_info) \<Rightarrow> if group_info = [] then None else map_of group_info ''id''
      | _ \<Rightarrow> None)"

definition resolved_ids :: "transport \<Rightarrow> string list \<Rightarrow> json list" where
  "resolved_ids T names = List.map_filter (resolved_id T) names"

text \<open>No exception has been stored: neither in the error list nor in \<open>r\<close>.\<close>

definition no_exc :: "state \<Rightarrow> bool" where
  "no_exc s \<longleftrightarrow> errors s = [] \<and> (\<forall>e. r_local s \<noteq> Some (Exc e))"

definition quiet :: "state \<Rightarrow> state \<Rightarrow> bool" where
  "quiet s s' \<longleftrightarrow> fetched s' = fetched s \<and> (no_exc s \<longrightarrow> no_exc s')"

text \<open>
  The key whose absence stops the loop body before any validation: \<open>@odata.type\<close>, read by
  the loop itself, or \<open>id\<close>, read first by the registration routine of a recognised type.
\<close>

definition missing_key :: "raw \<Rightarrow> string option" where
  "missing_key m0 =
     (case map_of (strip_none m0) ''@odata.type'' of
        None \<Rightarrow> Some ''@odata.type''
      | Some t \<Rightarrow>
          if (t = JStr ''#microsoft.graph.user'' \<or> t = JStr ''#microsoft.graph.servicePrincipal''
              \<or> t = JStr ''#microsoft.graph.group'')
             \<and> map_of (strip_none m0) ''id'' = None
          then Some ''id'' else None)"


section \<open>Sample directories\<close>

definition user_rec :: "string \<Rightarrow> raw" where
  "user_rec i =
     [(''@odata.type'', JStr ''#microsoft.graph.user''), (''id'', JStr i),
      (''displayName'', JStr i), (''mail'', JStr i), (''appId'', JStr i)]"

definition group_rec :: "string \<Rightarrow> raw" where
  "group_rec i = [(''id'', JStr i), (''displayName'', JStr i)]"

text \<open>One group of three users; the second has an identifier and nothing else.\<close>

definition T_isolation :: transport where
  "T_isolation =
     \<lparr>groups_named = (\<lambda>n. if n = ''G'' then Reply (Some [group_rec ''g1'']) else Reply (Some [])),
      members_of = (\<lambda>g. Reply (Some
         [user_rec ''u1'',
          [(''@odata.type'', JStr ''#microsoft.graph.user''), (''id'', JStr ''u2'')],
          user_rec ''u3'']))\<rparr>"

text \<open>
  Two groups: \<open>G1\<close> holds a user and the group \<open>g3\<close>, which is in nobody's name list;
  \<open>G2\<close> holds a member of a type the loop does not know. No other name resolves.
\<close>

definition T_two :: transport where
  "T_two =
     \<lparr>groups_named = (\<lambda>n. if n = ''G1'' then Reply (Some [group_rec ''g1''])
                          else if n = ''G2'' then Reply (Some [group_rec ''g2''])
                          else Reply (Some [])),
      members_of = (\<lambda>g. if g = JStr ''g1''
                         then Reply (Some [user_rec ''u1'',
                                (''@odata.type'', JStr ''#microsoft.graph.group'') # group_rec ''g3''])
                         else if g = JStr ''g2''
                         then Reply (Some [[(''@odata.type'', JStr ''#microsoft.graph.device''),
                                            (''id'', JStr ''d1'')]])
                         else Reply (Some [user_rec ''u9'']))\<rparr>"

text \<open>One group whose second member has no type tag.\<close>

definition T_untyped :: transport where
  "T_untyped =
     \<lparr>groups_named = (\<lambda>n. if n = ''G'' then Reply (Some [group_rec ''g1'']) else Reply (Some [])),
      members_of = (\<lambda>g. Reply (Some
         [user_rec ''u1'', [(''id'', JStr ''u2''), (''displayName'', JStr ''u2'')]]))\<rparr>"

text \<open>What the run over \<open>T_two\<close> returns for \<open>[G1]\<close> and for \<open>[G1, G2]\<close>.\<close>

definition S_one :: state where
  "S_one =
     \<lparr>users = [(JStr ''u1'', 1)], service_principals = [],
      groups = [(JStr ''g1'', 0), (JStr ''g3'', 2)], errors = [],
      heap = [GraphGroup ''g1'' ''g1'' (Some [(''u1'', 1), (''g3'', 2)]),
              GraphUser ''u1'' ''u1'' ''u1'' True,
              GraphGroup ''g3'' ''g3'' (Some [])],
      r_local = Some (Obj 2), fetched = [JStr ''g1''],
      validated = [group_rec ''g1'', user_rec ''u1'',
                   (''@odata.type'', JStr ''#microsoft.graph.group'') # group_rec ''g3'']\<rparr>"

definition S_two :: state where
  "S_two =
     \<lparr>users = [(JStr ''u1'', 1)], service_principals = [],
      groups = [(JStr ''g1'', 0), (JStr ''g3'', 2), (JStr ''g2'', 3)], errors = [],
      heap = [GraphGroup ''g1'' ''g1'' (Some [(''u1'', 1), (''g3'', 2)]),
              GraphUser ''u1'' ''u1'' ''u1'' True,
              GraphGroup ''g3'' ''g3'' (Some []),
              GraphGroup ''g2'' ''g2'' (Some [(''g3'', 2)])],
      r_local = Some (Obj 2), fetched = [JStr ''g1'', JStr ''g2''],
      validated = [group_rec ''g1'', user_rec ''u1'',
                   (''@odata.type'', JStr ''#microsoft.graph.group'') # group_rec ''g3'',
                   group_rec ''g2'']\<rparr>"






section \<open>Dictionaries without their null values\<close>

lemma map_of_drop_null:
  assumes "distinct (map fst xs)"
  shows "map_of (filter (\<lambda>kv. snd kv \<noteq> JNull) xs) k =
           (if map_of xs k = Some JNull then None else map_of xs k)"
  using assms
proof (induction xs)
  case Nil
  show ?case by simp
next
  case (Cons p ps)
  obtain k' v' where p: "p = (k', v')" by (cases p)
  from Cons.prems p have fresh: "map_of ps k' = None"
    by (simp add: map_of_eq_None_iff)
  from Cons.prems have IH: "map_of (filter (\<lambda>kv. snd kv \<noteq> JNull) ps) k =
      (if map_of ps k = Some JNull then None else map_of ps k)"
    by (simp add: Cons.IH)
  show ?case
  proof (cases "k = k'")
    case True
    with p fresh IH show ?thesis by simp
  next
    case False
    with p IH show ?thesis by simp
  qed
qed

lemma map_of_strip_none:
  "map_of (strip_none m) k = (if map_of m k = Some JNull then None else map_of m k)"
  unfolding strip_none_def
  by (simp add: map_of_drop_null map_of_clearjunk)

lemma strip_none_absent: "map_of m k = None \<Longrightarrow> map_of (strip_none m) k = None"
  by (simp add: map_of_strip_none)


lemma strip_none_value:
  "map_of m k = Some v \<Longrightarrow> v \<noteq> JNull \<Longrightarrow> map_of (strip_none m) k = Some v"
  by (simp add: map_of_strip_none)


section \<open>Validation of single records\<close>

lemma str_field_single:
  "str_field [k] d = (case map_of d k of None \<Rightarrow> None | Some v \<Rightarrow> validate_str v)"
  by (simp add: str_field_def split: option.splits)

lemma str_field_Some_single: "str_field [k] d = Some x \<longleftrightarrow> map_of d k = Some (JStr x)"
proof
  assume "str_field [k] d = Some x"
  then obtain v where v: "map_of d k = Some v" "validate_str v = Some x"
    by (auto simp: str_field_single split: option.splits)
  then show "map_of d k = Some (JStr x)" by (cases v) auto
next
  assume "map_of d k = Some (JStr x)"
  then show "str_field [k] d = Some x" by (simp add: str_field_single)
qed



text \<open>
  C5. A user or service-principal record with no \<open>accountEnabled\<close> key, whose other required
  fields are valid, validates with \<open>active = True\<close>.
\<close>

theorem default_active:
  assumes "map_of d ''accountEnabled'' = None"
    and "str_field [''id''] d = Some i"
    and "str_field [''displayName''] d = Some n"
  shows "(str_field [''mail'', ''mailNickname''] d = Some m \<longrightarrow>
            GraphUser_model_validate d = Inr (GraphUser i n m True))
       \<and> (str_field [''appId''] d = Some p \<longrightarrow>
            GraphServicePrincipal_model_validate d = Inr (GraphServicePrincipal i n p True))"
  using assms
  by (simp add: GraphUser_model_validate_def GraphServicePrincipal_model_validate_def
      bool_field_def)

theorem default_active_witness:
  "GraphUser_model_validate
      [(''id'', JStr ''u1''), (''displayName'', JStr ''U1''), (''mail'', JStr ''u1@x.org'')]
     = (Inr (GraphUser ''u1'' ''U1'' ''u1@x.org'' True) :: error + ref entity)
   \<and> GraphServicePrincipal_model_validate
      [(''id'', JStr ''u1''), (''displayName'', JStr ''U1''), (''mail'', JStr ''u1@x.org''),
       (''appId'', JStr ''app-1'')]
     = (Inr (GraphServicePrincipal ''u1'' ''U1'' ''app-1'' True) :: error + ref entity)"
  using default_active [of "[(''id'', JStr ''u1''), (''displayName'', JStr ''U1''),
        (''mail'', JStr ''u1@x.org'')]" "''u1''" "''U1''" "''u1@x.org''" "''none''",
        where ?'a = ref and ?'b = ref]
    default_active [of "[(''id'', JStr ''u1''), (''displayName'', JStr ''U1''),
        (''mail'', JStr ''u1@x.org''), (''appId'', JStr ''app-1'')]"
        "''u1''" "''U1''" "''u1@x.org''" "''app-1''", where ?'a = ref and ?'b = ref]
  by (simp add: str_field_def)




section \<open>Sample runs\<close>

lemmas run_simps =
  get_objects_for_sync_def process_group_name_def get_group_by_name_def get_group_members_def
  register_group_def register_user_def register_service_principal_def GraphSyncObject_def
  GraphGroup_model_validate_def GraphUser_model_validate_def
  GraphServicePrincipal_model_validate_def GraphBase_model_validate_def
  str_field_def bool_field_def members_field_def
  process_member_def strip_none_def assign_r_def link_member_def set_member_def
  AList.delete_eq user_rec_def group_rec_def

lemma quiet_T_two: "no_members_brought T_two names"
  by (auto simp: no_members_brought_def brings_members_def get_group_by_name_def
      get_group_members_def T_two_def user_rec_def group_rec_def split: if_splits)

lemma run_one: "get_objects_for_sync T_two [''G1''] = Inr S_one"
  by (simp add: run_simps T_two_def S_one_def)

lemma run_both: "get_objects_for_sync T_two [''G1'', ''G2''] = Inr S_two"
  by (simp add: run_simps T_two_def S_two_def)

lemma run_second_only: "get_objects_for_sync T_two [''G2''] = Inl NameError"
  by (simp add: run_simps T_two_def)

lemma run_untyped:
  "get_objects_for_sync T_untyped [''G''] = Inl (KeyError (JStr ''@odata.type''))"
  by (simp add: run_simps T_untyped_def)


section \<open>The two loops\<close>

lemma for_group_names_append:
  "for_group_names T (xs @ ys) s =
     (case for_group_names T xs s of Inl e \<Rightarrow> Inl e | Inr s' \<Rightarrow> for_group_names T ys s')"
  by (induction xs arbitrary: s) (auto split: sum.splits)

lemma for_members_append:
  "for_members (xs @ ys) grp s =
     (case for_members xs grp s of Inl e \<Rightarrow> Inl e | Inr s' \<Rightarrow> for_members ys grp s')"
  by (induction xs arbitrary: s) (auto split: sum.splits)

lemma unresolved_name_skipped:
  assumes "groups_named T name = Reply data"
    and "data = None \<or> (\<exists>xs. data = Some xs \<and> length xs \<noteq> 1)"
  shows "process_group_name T name s = Inr s"
proof -
  have "get_group_by_name T name = Inr None"
    using assms by (auto simp: get_group_by_name_def split: option.splits list.splits)
  then show ?thesis by (simp add: process_group_name_def)
qed

text \<open>
  C3. A name for which the lookup yields no group, or more than one, is skipped: the loop
  body leaves the state as it found it, and the run over a list that contains the name is
  the run over the list without it.
\<close>

theorem not_found_skip:
  assumes "groups_named T name = Reply data"
    and "data = None \<or> (\<exists>xs. data = Some xs \<and> length xs \<noteq> 1)"
  shows "process_group_name T name s = Inr s
       \<and> get_objects_for_sync T (before @ name # after) = get_objects_for_sync T (before @ after)"
proof -
  have skip: "\<And>s'. process_group_name T name s' = Inr s'"
    using assms by (rule unresolved_name_skipped)
  have "for_group_names T (before @ name # after) GraphSyncObject =
        for_group_names T (before @ after) GraphSyncObject"
    by (simp add: for_group_names_append skip split: sum.splits)
  with skip show ?thesis by (simp add: get_objects_for_sync_def)
qed

theorem not_found_skip_witness:
  "groups_named T_two ''A'' = Reply (Some [])
   \<and> process_group_name T_two ''A'' GraphSyncObject = Inr GraphSyncObject
   \<and> get_objects_for_sync T_two [''A'', ''G1''] = Inr S_one"
proof -
  have a: "groups_named T_two ''A'' = Reply (Some [])" by (simp add: T_two_def)
  have b: "Some ([]::raw list) = None \<or> (\<exists>xs. Some ([]::raw list) = Some xs \<and> length xs \<noteq> 1)"
    by simp
  from not_found_skip [OF a b, of GraphSyncObject "[]" "[''G1'']"] a run_one
  show ?thesis by simp
qed


text \<open>Nothing but the three registrations touches the fetch log, the error list or \<open>r\<close>.\<close>

lemma quiet_refl: "quiet s s"
  by (simp add: quiet_def)

lemma quiet_trans: "quiet s s1 \<Longrightarrow> quiet s1 s2 \<Longrightarrow> quiet s s2"
  by (simp add: quiet_def)

lemma register_user_quiet:
  "register_user d s = Inr (a, s') \<Longrightarrow> quiet s (s'\<lparr>r_local := Some (Obj a)\<rparr>)"
  by (auto simp: register_user_def quiet_def no_exc_def Let_def
      split: option.splits if_splits sum.splits)

lemma register_service_principal_quiet:
  "register_service_principal d s = Inr (a, s') \<Longrightarrow> quiet s (s'\<lparr>r_local := Some (Obj a)\<rparr>)"
  by (auto simp: register_service_principal_def quiet_def no_exc_def Let_def
      split: option.splits if_splits sum.splits)

lemma register_group_quiet:
  "register_group d s = Inr (a, s') \<Longrightarrow>
   quiet s (s'\<lparr>r_local := Some (Obj a)\<rparr>) \<and> fetched s' = fetched s \<and> errors s' = errors s
   \<and> r_local s' = r_local s"
  by (auto simp: register_group_def quiet_def no_exc_def Let_def
      split: option.splits if_splits sum.splits)

lemma link_member_quiet:
  "link_member m grp s = Inr s' \<Longrightarrow> quiet s s'"
  by (auto simp: link_member_def set_member_def quiet_def no_exc_def
      split: option.splits pyval.splits entity.splits)

lemma process_member_quiet:
  assumes "process_member m0 grp s = Inr s'"
  shows "quiet s s'"
proof -
  let ?m = "strip_none m0"
  from assms obtain t where t: "map_of ?m ''@odata.type'' = Some t"
    by (auto simp: process_member_def Let_def split: option.splits)
  from assms t obtain s1 s2 s3 where
    1: "(if t = JStr ''#microsoft.graph.user'' then assign_r (register_user ?m s) else Inr s) = Inr s1"
    and 2: "(if t = JStr ''#microsoft.graph.servicePrincipal''
             then assign_r (register_service_principal ?m s1) else Inr s1) = Inr s2"
    and 3: "(if t = JStr ''#microsoft.graph.group''
             then assign_r (register_group ?m s2) else Inr s2) = Inr s3"
    and 4: "link_member ?m grp s3 = Inr s'"
    by (auto simp: process_member_def Let_def split: sum.splits)
  have q1: "quiet s s1"
    using 1 register_user_quiet [of ?m s]
    by (cases "register_user ?m s") (auto simp: assign_r_def quiet_refl split: if_splits)
  have q2: "quiet s1 s2"
    using 2 register_service_principal_quiet [of ?m s1]
    by (cases "register_service_principal ?m s1") (auto simp: assign_r_def quiet_refl split: if_splits)
  have q3: "quiet s2 s3"
    using 3 register_group_quiet [of ?m s2]
    by (cases "register_group ?m s2") (auto simp: assign_r_def quiet_refl split: if_splits)
  from q1 q2 q3 link_member_quiet [OF 4] show ?thesis
    by (blast intro: quiet_trans)
qed

lemma for_members_quiet:
  "for_members ms grp s = Inr s' \<Longrightarrow> quiet s s'"
proof (induction ms arbitrary: s)
  case Nil
  then show ?case by (simp add: quiet_refl)
next
  case (Cons m ms)
  from Cons.prems obtain s1 where 1: "process_member m grp s = Inr s1"
    and 2: "for_members ms grp s1 = Inr s'"
    by (auto split: sum.splits)
  from process_member_quiet [OF 1] Cons.IH [OF 2] show ?case by (rule quiet_trans)
qed


text \<open>A record without type tag, or without identifier, stops the body with \<open>KeyError\<close>.\<close>

lemma missing_type_raises:
  "map_of (strip_none m0) ''@odata.type'' = None \<Longrightarrow>
   process_member m0 grp s = Inl (KeyError (JStr ''@odata.type''))"
  by (simp add: process_member_def)

lemma missing_id_raises:
  assumes "map_of (strip_none m0) ''@odata.type'' = Some t"
    and "t = JStr ''#microsoft.graph.user'' \<or> t = JStr ''#microsoft.graph.servicePrincipal''
         \<or> t = JStr ''#microsoft.graph.group''"
    and "map_of (strip_none m0) ''id'' = None"
  shows "process_member m0 grp s = Inl (KeyError (JStr ''id''))"
  using assms
  by (auto simp: process_member_def register_user_def register_service_principal_def
      register_group_def assign_r_def)

lemma missing_key_raises:
  assumes "missing_key m0 = Some k"
  shows "process_member m0 grp s = Inl (KeyError (JStr k))"
proof (cases "map_of (strip_none m0) ''@odata.type''")
  case None
  with assms have "k = ''@odata.type''" by (simp add: missing_key_def)
  with None show ?thesis by (simp add: missing_type_raises)
next
  case (Some t)
  with assms have k: "k = ''id''"
    and t: "t = JStr ''#microsoft.graph.user'' \<or> t = JStr ''#microsoft.graph.servicePrincipal''
            \<or> t = JStr ''#microsoft.graph.group''"
    and i: "map_of (strip_none m0) ''id'' = None"
    by (auto simp: missing_key_def split: if_splits)
  from missing_id_raises [OF Some t i] k show ?thesis by simp
qed

lemma member_error_aborts_loop:
  "for_members before grp s0 = Inr s \<Longrightarrow> process_member m grp s = Inl e \<Longrightarrow>
   for_members (before @ m # after) grp s0 = Inl e"
  by (simp add: for_members_append)

lemma group_error_aborts_run:
  "for_group_names T before s0 = Inr s \<Longrightarrow> process_group_name T g s = Inl e \<Longrightarrow>
   for_group_names T (before @ g # after) s0 = Inl e"
  by (simp add: for_group_names_append)

text \<open>One name of the list: what it takes for the body to finish, and what it leaves.\<close>

lemma process_group_name_cases:
  assumes "process_group_name T g s = Inr s'"
  obtains (skipped) "resolved_id T g = None" and "s' = s"
  | (resolved) group_info gid ms a s1 grp where
      "get_group_by_name T g = Inr (Some group_info)" and "group_info \<noteq> []"
      and "map_of group_info ''id'' = Some gid" and "resolved_id T g = Some gid"
      and "get_group_members T gid = Inr (Some ms)"
      and "register_group group_info (s\<lparr>fetched := fetched s @ [gid]\<rparr>) = Inr (a, s1)"
      and "map_of (groups s1) gid = Some grp"
      and "for_members ms grp s1 = Inr s'"
proof (cases "get_group_by_name T g")
  case (Inl e)
  with assms show ?thesis by (simp add: process_group_name_def)
next
  case (Inr r)
  show ?thesis
  proof (cases r)
    case None
    with Inr assms have "resolved_id T g = None" "s' = s"
      by (simp_all add: process_group_name_def resolved_id_def)
    then show ?thesis by (rule skipped)
  next
    case (Some group_info)
    show ?thesis
    proof (cases "group_info = []")
      case True
      with Inr Some assms have "resolved_id T g = None" "s' = s"
        by (simp_all add: process_group_name_def resolved_id_def)
      then show ?thesis by (rule skipped)
    next
      case False
      from assms Inr Some False obtain gid where gid: "map_of group_info ''id'' = Some gid"
        by (auto simp: process_group_name_def split: option.splits)
      from assms Inr Some False gid obtain gm where gm: "get_group_members T gid = Inr gm"
        by (auto simp: process_group_name_def split: sum.splits)
      from assms Inr Some False gid gm obtain a s1
        where rg: "register_group group_info (s\<lparr>fetched := fetched s @ [gid]\<rparr>) = Inr (a, s1)"
        by (auto simp: process_group_name_def split: sum.splits)
      from assms Inr Some False gid gm rg obtain grp
        where grp: "map_of (groups s1) gid = Some grp"
        by (auto simp: process_group_name_def split: option.splits)
      from assms Inr Some False gid gm rg grp obtain ms
        where ms: "gm = Some ms" "for_members ms grp s1 = Inr s'"
        by (auto simp: process_group_name_def split: option.splits)
      have "resolved_id T g = Some gid"
        using Inr Some False gid by (simp add: resolved_id_def)
      with Inr Some False gid gm rg grp ms show ?thesis
        by (auto intro: resolved)
    qed
  qed
qed

lemma for_members_each:
  "for_members ms grp s = Inr s' \<Longrightarrow> m \<in> set ms \<Longrightarrow> \<exists>sa sb. process_member m grp sa = Inr sb"
proof (induction ms arbitrary: s)
  case Nil
  then show ?case by simp
next
  case (Cons x xs)
  from Cons.prems(1) obtain s1 where 1: "process_member x grp s = Inr s1"
    and 2: "for_members xs grp s1 = Inr s'"
    by (auto split: sum.splits)
  show ?case
  proof (cases "m = x")
    case True
    with 1 show ?thesis by blast
  next
    case False
    with Cons.prems(2) have "m \<in> set xs" by simp
    from Cons.IH [OF 2 this] show ?thesis .
  qed
qed

lemma for_group_names_each:
  "for_group_names T names s = Inr s' \<Longrightarrow> g \<in> set names \<Longrightarrow>
   \<exists>sa sb. process_group_name T g sa = Inr sb"
proof (induction names arbitrary: s)
  case Nil
  then show ?case by simp
next
  case (Cons x xs)
  from Cons.prems(1) obtain s1 where 1: "process_group_name T x s = Inr s1"
    and 2: "for_group_names T xs s1 = Inr s'"
    by (auto split: sum.splits)
  show ?case
  proof (cases "g = x")
    case True
    with 1 show ?thesis by blast
  next
    case False
    with Cons.prems(2) have "g \<in> set xs" by simp
    from Cons.IH [OF 2 this] show ?thesis .
  qed
qed

lemma completed_run_members_ok:
  assumes "get_objects_for_sync T group_names = Inr s" and "name \<in> set group_names"
    and "get_group_by_name T name = Inr (Some group_info)" and "group_info \<noteq> []"
    and "map_of group_info ''id'' = Some gid" and "get_group_members T gid = Inr (Some ms)"
    and "m \<in> set ms"
  shows "\<exists>grp sa sb. process_member m grp sa = Inr sb"
proof -
  from assms(1) have "for_group_names T group_names GraphSyncObject = Inr s"
    by (simp add: get_objects_for_sync_def)
  from for_group_names_each [OF this assms(2)] obtain sa sb
    where "process_group_name T name sa = Inr sb" by blast
  then show ?thesis
  proof (cases rule: process_group_name_cases)
    case skipped
    with assms(3,4,5) show ?thesis by (simp add: resolved_id_def)
  next
    case (resolved group_info' gid' ms' a s1 grp)
    with assms(3,5,6) have "ms' = ms" by simp
    with resolved(8) for_members_each [of ms grp s1 sb m] assms(7) show ?thesis by blast
  qed
qed

text \<open>
  C9. A member record that, once stripped, has no \<open>@odata.type\<close>, or that has a known type
  but no \<open>id\<close>, makes the loop body raise \<open>KeyError\<close> for that key; the member loop stops
  there with that error, and a run in which a resolved group has such a member does not
  complete: it returns no result, hence no error entry for the record either.
\<close>

theorem key_error_aborts:
  assumes "missing_key m0 = Some k"
  shows "process_member m0 grp s = Inl (KeyError (JStr k))
       \<and> (for_members before grp s0 = Inr s \<longrightarrow>
            for_members (before @ m0 # after) grp s0 = Inl (KeyError (JStr k)))
       \<and> (name \<in> set group_names \<longrightarrow> get_group_by_name T name = Inr (Some group_info) \<longrightarrow>
            group_info \<noteq> [] \<longrightarrow> map_of group_info ''id'' = Some gid \<longrightarrow>
            get_group_members T gid = Inr (Some ms) \<longrightarrow> m0 \<in> set ms \<longrightarrow>
            (\<exists>e. get_objects_for_sync T group_names = Inl e))"
proof (intro conjI impI)
  show 1: "process_member m0 grp s = Inl (KeyError (JStr k))"
    using assms by (rule missing_key_raises)
  show "for_members (before @ m0 # after) grp s0 = Inl (KeyError (JStr k))"
    if "for_members before grp s0 = Inr s"
    using that 1 by (rule member_error_aborts_loop)
  show "\<exists>e. get_objects_for_sync T group_names = Inl e"
    if h: "name \<in> set group_names" "get_group_by_name T name = Inr (Some group_info)"
      "group_info \<noteq> []" "map_of group_info ''id'' = Some gid"
      "get_group_members T gid = Inr (Some ms)" "m0 \<in> set ms"
  proof (cases "get_objects_for_sync T group_names")
    case (Inl e)
    then show ?thesis by blast
  next
    case (Inr s')
    from completed_run_members_ok [OF Inr h] obtain g sa sb
      where "process_member m0 g sa = Inr sb" by blast
    with missing_key_raises [OF assms, of g sa] show ?thesis by simp
  qed
qed

theorem key_error_aborts_witness:
  "missing_key [(''id'', JStr ''u2''), (''displayName'', JStr ''u2'')] = Some ''@odata.type''
   \<and> missing_key [(''@odata.type'', JStr ''#microsoft.graph.user''), (''id'', JNull)] = Some ''id''
   \<and> for_members
        [user_rec ''u1'', [(''@odata.type'', JStr ''#microsoft.graph.user''), (''id'', JNull)],
         user_rec ''u3'']
        0 (GraphSyncObject\<lparr>heap := [GraphGroup ''g1'' ''g1'' (Some [])]\<rparr>)
      = Inl (KeyError (JStr ''id''))
   \<and> (\<exists>e. get_objects_for_sync T_untyped [''G''] = Inl e)"
proof -
  let ?m = "[(''id'', JStr ''u2''), (''displayName'', JStr ''u2'')]"
  let ?n = "[(''@odata.type'', JStr ''#microsoft.graph.user''), (''id'', JNull)]"
  let ?s0 = "GraphSyncObject\<lparr>heap := [GraphGroup ''g1'' ''g1'' (Some [])]\<rparr>"
  have km: "missing_key ?m = Some ''@odata.type''"
    by (simp add: missing_key_def map_of_strip_none)
  have kn: "missing_key ?n = Some ''id''"
    by (simp add: missing_key_def map_of_strip_none)
  obtain s1 where first: "for_members [user_rec ''u1''] 0 ?s0 = Inr s1"
    by (simp add: run_simps)
  from key_error_aborts [OF kn, of 0 s1 "[user_rec ''u1'']" ?s0 "[user_rec ''u3'']"] first
  have loop: "for_members ([user_rec ''u1''] @ ?n # [user_rec ''u3'']) 0 ?s0
                = Inl (KeyError (JStr ''id''))"
    by blast
  have g: "get_group_by_name T_untyped ''G'' = Inr (Some (group_rec ''g1''))"
    by (simp add: get_group_by_name_def T_untyped_def)
  have ne: "group_rec ''g1'' \<noteq> []" and gid: "map_of (group_rec ''g1'') ''id'' = Some (JStr ''g1'')"
    by (simp_all add: group_rec_def)
  have ms: "get_group_members T_untyped (JStr ''g1'') = Inr (Some [user_rec ''u1'', ?m])"
    by (simp add: get_group_members_def T_untyped_def)
  from key_error_aborts [OF km, of _ _ _ _ _ "''G''" "[''G'']" T_untyped "group_rec ''g1''"
      "JStr ''g1''" "[user_rec ''u1'', ?m]"] g ne gid ms
  have run: "\<exists>e. get_objects_for_sync T_untyped [''G''] = Inl e" by simp
  from km kn loop run show ?thesis by simp
qed


section \<open>What is registered stays registered\<close>

lemma extends_refl: "extends s s"
  by (simp add: extends_def)

lemma extends_trans:
  assumes "extends s s1" and "extends s1 s2"
  shows "extends s s2"
proof -
  from assms have len: "length (heap s) \<le> length (heap s1)" "length (heap s1) \<le> length (heap s2)"
    by (simp_all add: extends_def)
  have obj: "ent_id (heap s2 ! x) = ent_id (heap s ! x)
       \<and> (is_group (heap s ! x) \<longrightarrow> is_group (heap s2 ! x))" if "x < length (heap s)" for x
  proof -
    from that len have "x < length (heap s1)" by simp
    with assms that show ?thesis unfolding extends_def by metis
  qed
  from assms have "\<forall>i a. map_of (users s) i = Some a \<longrightarrow> map_of (users s2) i = Some a"
    "\<forall>i a. map_of (service_principals s) i = Some a \<longrightarrow> map_of (service_principals s2) i = Some a"
    "\<forall>i a. map_of (groups s) i = Some a \<longrightarrow> map_of (groups s2) i = Some a"
    unfolding extends_def by blast+
  with len obj show ?thesis unfolding extends_def by simp
qed

lemma store_group_append: "\<exists>objs. store_group obj h = h @ objs \<and> objs \<noteq> []"
  by (cases "(obj, h)" rule: store_group.cases) auto

lemma register_user_extends: "register_user d s = Inr (a, s') \<Longrightarrow> extends s s'"
  by (auto simp: register_user_def extends_def Let_def update_conv' nth_append
      split: option.splits if_splits sum.splits)

lemma register_service_principal_extends:
  "register_service_principal d s = Inr (a, s') \<Longrightarrow> extends s s'"
  by (auto simp: register_service_principal_def extends_def Let_def update_conv' nth_append
      split: option.splits if_splits sum.splits)

lemma register_group_extends:
  assumes "register_group d s = Inr (a, s')"
  shows "extends s s'"
proof -
  from assms obtain i where i: "map_of d ''id'' = Some i" "hashable i"
    by (auto simp: register_group_def split: option.splits if_splits)
  show ?thesis
  proof (cases "map_of (groups s) i")
    case (Some b)
    with assms i have "s' = s" by (auto simp: register_group_def)
    then show ?thesis by (simp add: extends_refl)
  next
    case None
    with assms i obtain obj where
      s': "s' = s\<lparr>groups := AList.update i a (groups s),
                   heap := store_group obj (heap s), validated := validated s @ [d]\<rparr>"
      by (auto simp: register_group_def Let_def split: sum.splits)
    obtain objs where "store_group obj (heap s) = heap s @ objs"
      using store_group_append by blast
    with s' None show ?thesis
      by (auto simp: extends_def update_conv' nth_append)
  qed
qed

lemma set_member_extends:
  assumes "set_member grp k a s = Inr s'"
  shows "extends s s'"
proof -
  from assms obtain i n ms where g: "heap s ! grp = GraphGroup i n (Some ms)"
    and s': "s' = s\<lparr>heap := (heap s)[grp := GraphGroup i n (Some (AList.update k a ms))]\<rparr>"
    by (auto simp: set_member_def split: entity.splits option.splits)
  have "ent_id (heap s' ! x) = ent_id (heap s ! x)
      \<and> (is_group (heap s ! x) \<longrightarrow> is_group (heap s' ! x))" if "x < length (heap s)" for x
    using that s' g by (cases "x = grp") simp_all
  with s' show ?thesis by (simp add: extends_def)
qed

lemma link_member_extends:
  assumes "link_member m grp s = Inr s'"
  shows "extends s s'"
proof (cases "r_local s")
  case None
  with assms show ?thesis by (simp add: link_member_def)
next
  case (Some v)
  show ?thesis
  proof (cases v)
    case (Obj a)
    with Some assms have "set_member grp (ent_id (heap s ! a)) a s = Inr s'"
      by (simp add: link_member_def)
    then show ?thesis by (rule set_member_extends)
  next
    case (Exc e)
    with Some assms have "s' = s\<lparr>errors := errors s @ [(m, e)]\<rparr>"
      by (simp add: link_member_def)
    then show ?thesis by (simp add: extends_def)
  qed
qed

lemma assign_r_extends:
  assumes "assign_r res = Inr s'" and "\<And>a s1. res = Inr (a, s1) \<Longrightarrow> extends s s1"
  shows "extends s s'"
proof -
  from assms(1) obtain a s1 where r: "res = Inr (a, s1)" and s': "s' = s1\<lparr>r_local := Some (Obj a)\<rparr>"
    by (cases res) (auto simp: assign_r_def)
  from assms(2) [OF r] s' show ?thesis by (simp add: extends_def)
qed

text \<open>The loop body, step by step.\<close>

lemma process_member_steps:
  assumes "process_member m0 grp s = Inr s'"
  obtains t s1 s2 s3 where "map_of (strip_none m0) ''@odata.type'' = Some t"
    and "(if t = JStr ''#microsoft.graph.user''
          then assign_r (register_user (strip_none m0) s) else Inr s) = Inr s1"
    and "(if t = JStr ''#microsoft.graph.servicePrincipal''
          then assign_r (register_service_principal (strip_none m0) s1) else Inr s1) = Inr s2"
    and "(if t = JStr ''#microsoft.graph.group''
          then assign_r (register_group (strip_none m0) s2) else Inr s2) = Inr s3"
    and "link_member (strip_none m0) grp s3 = Inr s'"
proof -
  from assms obtain t where t: "map_of (strip_none m0) ''@odata.type'' = Some t"
    by (auto simp: process_member_def Let_def split: option.splits)
  from assms t obtain s1 s2 s3 where
    "(if t = JStr ''#microsoft.graph.user''
      then assign_r (register_user (strip_none m0) s) else Inr s) = Inr s1"
    "(if t = JStr ''#microsoft.graph.servicePrincipal''
      then assign_r (register_service_principal (strip_none m0) s1) else Inr s1) = Inr s2"
    "(if t = JStr ''#microsoft.graph.group''
      then assign_r (register_group (strip_none m0) s2) else Inr s2) = Inr s3"
    "link_member (strip_none m0) grp s3 = Inr s'"
    by (auto simp: process_member_def Let_def split: sum.splits)
  with t that show ?thesis by blast
qed

lemma process_member_extends:
  assumes "process_member m0 grp s = Inr s'"
  shows "extends s s'"
  using assms
proof (cases rule: process_member_steps)
  case (1 t s1 s2 s3)
  have e1: "extends s s1"
  proof (cases "t = JStr ''#microsoft.graph.user''")
    case True
    with 1(2) show ?thesis
      by (auto intro: assign_r_extends register_user_extends)
  next
    case False
    with 1(2) show ?thesis by (simp add: extends_refl)
  qed
  have e2: "extends s1 s2"
  proof (cases "t = JStr ''#microsoft.graph.servicePrincipal''")
    case True
    with 1(3) show ?thesis
      by (auto intro: assign_r_extends register_service_principal_extends)
  next
    case False
    with 1(3) show ?thesis by (simp add: extends_refl)
  qed
  have e3: "extends s2 s3"
  proof (cases "t = JStr ''#microsoft.graph.group''")
    case True
    with 1(4) show ?thesis
      by (auto intro: assign_r_extends register_group_extends)
  next
    case False
    with 1(4) show ?thesis by (simp add: extends_refl)
  qed
  from e1 e2 e3 link_member_extends [OF 1(5)] show ?thesis
    by (blast intro: extends_trans)
qed

lemma for_members_extends: "for_members ms grp s = Inr s' \<Longrightarrow> extends s s'"
proof (induction ms arbitrary: s)
  case Nil
  then show ?case by (simp add: extends_refl)
next
  case (Cons m ms)
  from Cons.prems obtain s1 where 1: "process_member m grp s = Inr s1"
    and 2: "for_members ms grp s1 = Inr s'"
    by (auto split: sum.splits)
  from process_member_extends [OF 1] Cons.IH [OF 2] show ?case by (rule extends_trans)
qed

lemma extends_fetch: "extends s (s\<lparr>fetched := f\<rparr>)"
  by (simp add: extends_def)

lemma process_group_name_extends:
  assumes "process_group_name T g s = Inr s'"
  shows "extends s s'"
  using assms
proof (cases rule: process_group_name_cases)
  case skipped
  then show ?thesis by (simp add: extends_refl)
next
  case (resolved group_info gid ms a s1 grp)
  from extends_fetch register_group_extends [OF resolved(6)]
  have "extends s s1" by (rule extends_trans)
  with for_members_extends [OF resolved(8)] show ?thesis by (blast intro: extends_trans)
qed

lemma for_group_names_extends: "for_group_names T names s = Inr s' \<Longrightarrow> extends s s'"
proof (induction names arbitrary: s)
  case Nil
  then show ?case by (simp add: extends_refl)
next
  case (Cons g gs)
  from Cons.prems obtain s1 where 1: "process_group_name T g s = Inr s1"
    and 2: "for_group_names T gs s1 = Inr s'"
    by (auto split: sum.splits)
  from process_group_name_extends [OF 1] Cons.IH [OF 2] show ?case by (rule extends_trans)
qed

lemma later_extends: "later s s' \<Longrightarrow> extends s s'"
proof (induction rule: later.induct)
  case (now s)
  show ?case by (rule extends_refl)
next
  case (step_user s s1 d a s2)
  from step_user.IH register_user_extends [OF step_user.hyps(2)] show ?case
    by (rule extends_trans)
next
  case (step_service_principal s s1 d a s2)
  from step_service_principal.IH
    register_service_principal_extends [OF step_service_principal.hyps(2)]
  show ?case by (rule extends_trans)
next
  case (step_group s s1 d a s2)
  from step_group.IH register_group_extends [OF step_group.hyps(2)] show ?case
    by (rule extends_trans)
next
  case (step_member s s1 m grp s2)
  from step_member.IH process_member_extends [OF step_member.hyps(2)] show ?case
    by (rule extends_trans)
next
  case (step_name s s1 T g s2)
  from step_name.IH process_group_name_extends [OF step_name.hyps(2)] show ?case
    by (rule extends_trans)
next
  case (step_fetch s s1 f)
  from step_fetch.IH extends_fetch show ?case by (rule extends_trans)
qed

text \<open>A first call, and a call for an identifier that the mapping has.\<close>

lemma register_user_first:
  assumes "register_user d1 s = Inr (a, s1)" and "map_of d1 ''id'' = Some i"
  shows "hashable i \<and> map_of (users s1) i = Some a
       \<and> (map_of (users s) i = None \<longrightarrow>
            (\<exists>obj. GraphUser_model_validate d1 = Inr obj \<and> heap s1 = heap s @ [obj]
                   \<and> a = length (heap s))
            \<and> validated s1 = validated s @ [d1])
       \<and> (map_of (users s) i \<noteq> None \<longrightarrow> s1 = s)"
  using assms unfolding register_user_def
  by (auto simp: Let_def update_conv' split: option.splits if_splits sum.splits)

lemma register_service_principal_first:
  assumes "register_service_principal d1 s = Inr (a, s1)" and "map_of d1 ''id'' = Some i"
  shows "hashable i \<and> map_of (service_principals s1) i = Some a
       \<and> (map_of (service_principals s) i = None \<longrightarrow>
            (\<exists>obj. GraphServicePrincipal_model_validate d1 = Inr obj \<and> heap s1 = heap s @ [obj]
                   \<and> a = length (heap s))
            \<and> validated s1 = validated s @ [d1])
       \<and> (map_of (service_principals s) i \<noteq> None \<longrightarrow> s1 = s)"
  using assms unfolding register_service_principal_def
  by (auto simp: Let_def update_conv' split: option.splits if_splits sum.splits)

lemma register_group_first:
  assumes "register_group d1 s = Inr (a, s1)" and "map_of d1 ''id'' = Some i"
  shows "hashable i \<and> map_of (groups s1) i = Some a
       \<and> (map_of (groups s) i = None \<longrightarrow>
            (\<exists>obj. GraphGroup_model_validate d1 = Inr obj \<and> heap s1 = store_group obj (heap s)
                   \<and> a = length (heap s1) - 1)
            \<and> validated s1 = validated s @ [d1])
       \<and> (map_of (groups s) i \<noteq> None \<longrightarrow> s1 = s)"
  using assms unfolding register_group_def
  by (auto simp: Let_def update_conv' split: option.splits if_splits sum.splits)

lemma register_user_cached:
  "map_of (users s) i = Some a \<Longrightarrow> hashable i \<Longrightarrow> map_of d ''id'' = Some i \<Longrightarrow>
   register_user d s = Inr (a, s)"
  by (simp add: register_user_def)

lemma register_service_principal_cached:
  "map_of (service_principals s) i = Some a \<Longrightarrow> hashable i \<Longrightarrow> map_of d ''id'' = Some i \<Longrightarrow>
   register_service_principal d s = Inr (a, s)"
  by (simp add: register_service_principal_def)

lemma register_group_cached:
  "map_of (groups s) i = Some a \<Longrightarrow> hashable i \<Longrightarrow> map_of d ''id'' = Some i \<Longrightarrow>
   register_group d s = Inr (a, s)"
  by (simp add: register_group_def)

text \<open>
  C2. For each of the three registration routines, and two records \<open>d1\<close>, \<open>d2\<close> with the
  same \<open>id\<close>: if the call with \<open>d1\<close> returns the object \<open>a\<close>, then \<open>a\<close> is what the
  routine's mapping stores under that identifier. If the identifier was new, that call has
  validated \<open>d1\<close> and stored the validated entity as \<open>a\<close>; if it was not, the call has
  left the state alone. At any later state of the run the mapping still stores \<open>a\<close> under
  the identifier, and the call with \<open>d2\<close> returns the same object \<open>a\<close> and leaves the
  state as it is: \<open>d2\<close> is not validated.
\<close>

theorem idempotent_registration:
  assumes "map_of d1 ''id'' = Some i" and "map_of d2 ''id'' = Some i" and "later s1 s2"
  shows "(register_user d1 s = Inr (a, s1) \<longrightarrow>
            map_of (users s1) i = Some a
          \<and> (map_of (users s) i = None \<longrightarrow>
               (\<exists>obj. GraphUser_model_validate d1 = Inr obj \<and> heap s1 = heap s @ [obj]
                      \<and> a = length (heap s))
               \<and> validated s1 = validated s @ [d1])
          \<and> (map_of (users s) i \<noteq> None \<longrightarrow> s1 = s)
          \<and> map_of (users s2) i = Some a
          \<and> register_user d2 s2 = Inr (a, s2))
       \<and> (register_service_principal d1 s = Inr (a, s1) \<longrightarrow>
            map_of (service_principals s1) i = Some a
          \<and> (map_of (service_principals s) i = None \<longrightarrow>
               (\<exists>obj. GraphServicePrincipal_model_validate d1 = Inr obj
                      \<and> heap s1 = heap s @ [obj] \<and> a = length (heap s))
               \<and> validated s1 = validated s @ [d1])
          \<and> (map_of (service_principals s) i \<noteq> None \<longrightarrow> s1 = s)
          \<and> map_of (service_principals s2) i = Some a
          \<and> register_service_principal d2 s2 = Inr (a, s2))
       \<and> (register_group d1 s = Inr (a, s1) \<longrightarrow>
            map_of (groups s1) i = Some a
          \<and> (map_of (groups s) i = None \<longrightarrow>
               (\<exists>obj. GraphGroup_model_validate d1 = Inr obj
                      \<and> heap s1 = store_group obj (heap s) \<and> a = length (heap s1) - 1)
               \<and> validated s1 = validated s @ [d1])
          \<and> (map_of (groups s) i \<noteq> None \<longrightarrow> s1 = s)
          \<and> map_of (groups s2) i = Some a
          \<and> register_group d2 s2 = Inr (a, s2))"
proof (intro conjI impI)
  from later_extends [OF assms(3)] have ext: "extends s1 s2" .
  {
    assume r: "register_user d1 s = Inr (a, s1)"
    note f = register_user_first [OF r assms(1)]
    from f show "map_of (users s1) i = Some a" by simp
    from f ext show k: "map_of (users s2) i = Some a" by (simp add: extends_def)
    from f k assms(2) show "register_user d2 s2 = Inr (a, s2)"
      by (simp add: register_user_cached)
    from f show "map_of (users s) i \<noteq> None \<Longrightarrow> s1 = s" by simp
    from f show "map_of (users s) i = None \<Longrightarrow> validated s1 = validated s @ [d1]" by simp
    from f show "map_of (users s) i = None \<Longrightarrow>
        \<exists>obj. GraphUser_model_validate d1 = Inr obj \<and> heap s1 = heap s @ [obj]
              \<and> a = length (heap s)"
      by simp
  }
  {
    assume r: "register_service_principal d1 s = Inr (a, s1)"
    note f = register_service_principal_first [OF r assms(1)]
    from f show "map_of (service_principals s1) i = Some a" by simp
    from f ext show k: "map_of (service_principals s2) i = Some a" by (simp add: extends_def)
    from f k assms(2) show "register_service_principal d2 s2 = Inr (a, s2)"
      by (simp add: register_service_principal_cached)
    from f show "map_of (service_principals s) i \<noteq> None \<Longrightarrow> s1 = s" by simp
    from f show "map_of (service_principals s) i = None \<Longrightarrow>
        validated s1 = validated s @ [d1]" by simp
    from f show "map_of (service_principals s) i = None \<Longrightarrow>
        \<exists>obj. GraphServicePrincipal_model_validate d1 = Inr obj \<and> heap s1 = heap s @ [obj]
              \<and> a = length (heap s)"
      by simp
  }
  {
    assume r: "register_group d1 s = Inr (a, s1)"
    note f = register_group_first [OF r assms(1)]
    from f show "map_of (groups s1) i = Some a" by simp
    from f ext show k: "map_of (groups s2) i = Some a" by (simp add: extends_def)
    from f k assms(2) show "register_group d2 s2 = Inr (a, s2)"
      by (simp add: register_group_cached)
    from f show "map_of (groups s) i \<noteq> None \<Longrightarrow> s1 = s" by simp
    from f show "map_of (groups s) i = None \<Longrightarrow> validated s1 = validated s @ [d1]" by simp
    from f show "map_of (groups s) i = None \<Longrightarrow>
        \<exists>obj. GraphGroup_model_validate d1 = Inr obj \<and> heap s1 = store_group obj (heap s)
              \<and> a = length (heap s1) - 1"
      by simp
  }
qed

theorem idempotent_registration_witness:
  "(\<exists>s1 s2. register_user (user_rec ''u1'') GraphSyncObject = Inr (0, s1)
        \<and> map_of (users s1) (JStr ''u1'') = Some 0
        \<and> heap s1 = [GraphUser ''u1'' ''u1'' ''u1'' True] \<and> validated s1 = [user_rec ''u1'']
        \<and> register_user (user_rec ''u3'') s1 = Inr (1, s2) \<and> later s1 s2
        \<and> register_user [(''id'', JStr ''u1'')] s2 = Inr (0, s2))
   \<and> (\<exists>s1 s2. register_service_principal (user_rec ''u1'') GraphSyncObject = Inr (0, s1)
        \<and> map_of (service_principals s1) (JStr ''u1'') = Some 0
        \<and> heap s1 = [GraphServicePrincipal ''u1'' ''u1'' ''u1'' True]
        \<and> validated s1 = [user_rec ''u1'']
        \<and> register_service_principal (user_rec ''u3'') s1 = Inr (1, s2) \<and> later s1 s2
        \<and> register_service_principal [(''id'', JStr ''u1'')] s2 = Inr (0, s2))
   \<and> (\<exists>s1 s2. register_group (user_rec ''u1'') GraphSyncObject = Inr (0, s1)
        \<and> map_of (groups s1) (JStr ''u1'') = Some 0
        \<and> heap s1 = [GraphGroup ''u1'' ''u1'' (Some [])] \<and> validated s1 = [user_rec ''u1'']
        \<and> register_group (user_rec ''u3'') s1 = Inr (1, s2) \<and> later s1 s2
        \<and> register_group [(''id'', JStr ''u1'')] s2 = Inr (0, s2))"
proof -
  let ?d1 = "user_rec ''u1''" and ?d2 = "[(''id'', JStr ''u1'')]" and ?d3 = "user_rec ''u3''"
  have i1: "map_of ?d1 ''id'' = Some (JStr ''u1'')" by (simp add: user_rec_def)
  have i2: "map_of ?d2 ''id'' = Some (JStr ''u1'')" by simp
  have none: "map_of (users GraphSyncObject) (JStr ''u1'') = None"
    "map_of (service_principals GraphSyncObject) (JStr ''u1'') = None"
    "map_of (groups GraphSyncObject) (JStr ''u1'') = None"
    "heap GraphSyncObject = []" "validated GraphSyncObject = []"
    by (simp_all add: GraphSyncObject_def)
  have vu: "GraphUser_model_validate ?d1 = (Inr (GraphUser ''u1'' ''u1'' ''u1'' True) :: error + ref entity)"
    by (simp add: run_simps)
  have vp: "GraphServicePrincipal_model_validate ?d1 =
      (Inr (GraphServicePrincipal ''u1'' ''u1'' ''u1'' True) :: error + ref entity)"
    by (simp add: run_simps)
  have vg: "GraphGroup_model_validate ?d1 = Inr (GraphGroup ''u1'' ''u1'' (Some []))"
    by (simp add: run_simps)
  have user: "\<exists>s1 s2. register_user ?d1 GraphSyncObject = Inr (0, s1)
        \<and> map_of (users s1) (JStr ''u1'') = Some 0
        \<and> heap s1 = [GraphUser ''u1'' ''u1'' ''u1'' True] \<and> validated s1 = [?d1]
        \<and> register_user ?d3 s1 = Inr (1, s2) \<and> later s1 s2
        \<and> register_user ?d2 s2 = Inr (0, s2)"
  proof -
    obtain s1 where a: "register_user ?d1 GraphSyncObject = Inr (0, s1)"
      by (simp add: run_simps)
    obtain s2 where b: "register_user ?d3 s1 = Inr (1, s2)"
      using a by (auto simp: run_simps)
    have l: "later s1 s2" by (rule later.step_user [OF later.now b])
    from idempotent_registration [OF i1 i2 l, of GraphSyncObject 0] a none vu
    have "map_of (users s1) (JStr ''u1'') = Some 0"
      "heap s1 = [GraphUser ''u1'' ''u1'' ''u1'' True]" "validated s1 = [?d1]"
      "register_user ?d2 s2 = Inr (0, s2)"
      by auto
    with a b l show ?thesis by blast
  qed
  have sp: "\<exists>s1 s2. register_service_principal ?d1 GraphSyncObject = Inr (0, s1)
        \<and> map_of (service_principals s1) (JStr ''u1'') = Some 0
        \<and> heap s1 = [GraphServicePrincipal ''u1'' ''u1'' ''u1'' True] \<and> validated s1 = [?d1]
        \<and> register_service_principal ?d3 s1 = Inr (1, s2) \<and> later s1 s2
        \<and> register_service_principal ?d2 s2 = Inr (0, s2)"
  proof -
    obtain s1 where a: "register_service_principal ?d1 GraphSyncObject = Inr (0, s1)"
      by (simp add: run_simps)
    obtain s2 where b: "register_service_principal ?d3 s1 = Inr (1, s2)"
      using a by (auto simp: run_simps)
    have l: "later s1 s2" by (rule later.step_service_principal [OF later.now b])
    from idempotent_registration [OF i1 i2 l, of GraphSyncObject 0] a none vp
    have "map_of (service_principals s1) (JStr ''u1'') = Some 0"
      "heap s1 = [GraphServicePrincipal ''u1'' ''u1'' ''u1'' True]" "validated s1 = [?d1]"
      "register_service_principal ?d2 s2 = Inr (0, s2)"
      by auto
    with a b l show ?thesis by blast
  qed
  have grp: "\<exists>s1 s2. register_group ?d1 GraphSyncObject = Inr (0, s1)
        \<and> map_of (groups s1) (JStr ''u1'') = Some 0
        \<and> heap s1 = [GraphGroup ''u1'' ''u1'' (Some [])] \<and> validated s1 = [?d1]
        \<and> register_group ?d3 s1 = Inr (1, s2) \<and> later s1 s2
        \<and> register_group ?d2 s2 = Inr (0, s2)"
  proof -
    obtain s1 where a: "register_group ?d1 GraphSyncObject = Inr (0, s1)"
      by (simp add: run_simps)
    obtain s2 where b: "register_group ?d3 s1 = Inr (1, s2)"
      using a by (auto simp: run_simps)
    have l: "later s1 s2" by (rule later.step_group [OF later.now b])
    from idempotent_registration [OF i1 i2 l, of GraphSyncObject 0] a none vg
    have "map_of (groups s1) (JStr ''u1'') = Some 0"
      "heap s1 = [GraphGroup ''u1'' ''u1'' (Some [])]" "validated s1 = [?d1]"
      "register_group ?d2 s2 = Inr (0, s2)"
      by auto
    with a b l show ?thesis by blast
  qed
  from user sp grp show ?thesis by blast
qed


section \<open>The variable r\<close>


text \<open>The member loop of the next group starts with \<open>r\<close> as the last group left it.\<close>

lemma process_group_name_start:
  assumes "process_group_name T g s = Inr s'"
    and "get_group_by_name T g = Inr (Some group_info)" and "group_info \<noteq> []"
    and "map_of group_info ''id'' = Some gid" and "get_group_members T gid = Inr (Some ms)"
  shows "\<exists>s1 grp. r_local s1 = r_local s \<and> map_of (groups s1) gid = Some grp
           \<and> for_members ms grp s1 = Inr s'"
  using assms(1)
proof (cases rule: process_group_name_cases)
  case skipped
  with assms(2,3,4) show ?thesis by (simp add: resolved_id_def)
next
  case (resolved group_info' gid' ms' a s1 grp)
  with assms(2,4,5) have eq: "gid' = gid" "ms' = ms" by simp_all
  from register_group_quiet [OF resolved(6)] have "r_local s1 = r_local s" by simp
  with resolved(7,8) eq show ?thesis by blast
qed







section \<open>What the run fetches, and what it records as errors\<close>

lemma process_group_name_fetched:
  assumes "process_group_name T g s = Inr s'"
  shows "fetched s' = fetched s @ (case resolved_id T g of None \<Rightarrow> [] | Some gid \<Rightarrow> [gid])
       \<and> (no_exc s \<longrightarrow> no_exc s')"
  using assms
proof (cases rule: process_group_name_cases)
  case skipped
  then show ?thesis by simp
next
  case (resolved group_info gid ms a s1 grp)
  from register_group_quiet [OF resolved(6)]
  have "fetched s1 = fetched s @ [gid]" "errors s1 = errors s" "r_local s1 = r_local s"
    by simp_all
  with for_members_quiet [OF resolved(8)] resolved(4) show ?thesis
    by (simp add: quiet_def no_exc_def)
qed

lemma for_group_names_fetched:
  "for_group_names T names s = Inr s' \<Longrightarrow>
   fetched s' = fetched s @ resolved_ids T names \<and> (no_exc s \<longrightarrow> no_exc s')"
proof (induction names arbitrary: s)
  case Nil
  then show ?case by (simp add: resolved_ids_def map_filter_simps)
next
  case (Cons g gs)
  from Cons.prems obtain s1 where 1: "process_group_name T g s = Inr s1"
    and 2: "for_group_names T gs s1 = Inr s'"
    by (auto split: sum.splits)
  from process_group_name_fetched [OF 1] Cons.IH [OF 2] show ?case
    by (auto simp: resolved_ids_def map_filter_simps split: option.splits)
qed

lemma length_resolved_ids: "length (resolved_ids T names) \<le> length names"
  by (simp add: resolved_ids_def map_filter_def)

text \<open>
  The error list of a completed run is empty: the registration routines raise the validation
  error instead of returning it, so \<open>r\<close> is never an exception.
\<close>

lemma errors_never_recorded:
  assumes "get_objects_for_sync T group_names = Inr s"
  shows "errors s = []"
proof -
  from assms have run: "for_group_names T group_names GraphSyncObject = Inr s"
    by (simp add: get_objects_for_sync_def)
  have "no_exc GraphSyncObject" by (simp add: no_exc_def GraphSyncObject_def)
  with for_group_names_fetched [OF run] show ?thesis by (simp add: no_exc_def)
qed

text \<open>
  C1. The run over one group of three users whose second user fails validation: the
  validation error leaves the registration routine and the loop, and the run ends with it;
  there is no result with two members and one error entry.
\<close>

theorem error_isolation_aborts:
  "get_objects_for_sync T_isolation [''G''] = Inl ValidationError"
  by (simp add: run_simps T_isolation_def)


section \<open>The invariant of the run\<close>

lemma GraphUser_valid_id:
  "GraphUser_model_validate d = Inr obj \<Longrightarrow> map_of d ''id'' = Some (JStr (ent_id obj)) \<and> \<not> is_group obj"
  by (auto simp: GraphUser_model_validate_def str_field_Some_single split: option.splits)

lemma GraphServicePrincipal_valid_id:
  "GraphServicePrincipal_model_validate d = Inr obj \<Longrightarrow>
   map_of d ''id'' = Some (JStr (ent_id obj)) \<and> \<not> is_group obj"
  by (auto simp: GraphServicePrincipal_model_validate_def str_field_Some_single split: option.splits)

lemma GraphGroup_valid_plain:
  "GraphGroup_model_validate d = Inr obj \<Longrightarrow> \<not> brings_members d \<Longrightarrow>
   \<exists>i n mm. obj = GraphGroup i n mm \<and> map_of d ''id'' = Some (JStr i)
     \<and> (mm = Some [] \<or> mm = None \<and> map_of d ''members'' = Some JNull)"
  by (auto simp: GraphGroup_model_validate_def members_field_def str_field_Some_single
      brings_members_def split: option.splits json.splits)

lemma store_group_plain:
  assumes "GraphGroup_model_validate d = Inr obj" and "\<not> brings_members d"
  shows "\<exists>i n mm. store_group obj h = h @ [GraphGroup i n mm] \<and> map_of d ''id'' = Some (JStr i)
           \<and> (mm = Some [] \<or> mm = None \<and> map_of d ''members'' = Some JNull)"
proof -
  from GraphGroup_valid_plain [OF assms] obtain i n mm
    where o: "obj = GraphGroup i n mm" and k: "map_of d ''id'' = Some (JStr i)"
      and mm: "mm = Some [] \<or> mm = None \<and> map_of d ''members'' = Some JNull"
    by blast
  from mm show ?thesis
  proof
    assume "mm = Some []"
    with o have "store_group obj h = h @ [GraphGroup i n (Some [])]" by simp
    with k show ?thesis by blast
  next
    assume n: "mm = None \<and> map_of d ''members'' = Some JNull"
    with o have "store_group obj h = h @ [GraphGroup i n None]" by simp
    with k n show ?thesis by blast
  qed
qed

lemma brings_members_strip: "brings_members (strip_none m) = brings_members m"
  by (simp add: brings_members_def map_of_strip_none split: option.splits json.splits)

lemma strip_none_no_null: "map_of (strip_none m) k \<noteq> Some JNull"
  by (simp add: map_of_strip_none)

text \<open>A registration that stores a new object.\<close>

lemma registered_mono_users:
  "map_of (users s) i = None \<Longrightarrow> registered s k b \<Longrightarrow>
   registered (s\<lparr>users := AList.update i a (users s), heap := h, validated := v\<rparr>) k b"
  by (auto simp: registered_def update_conv')

lemma registered_mono_sps:
  "map_of (service_principals s) i = None \<Longrightarrow> registered s k b \<Longrightarrow>
   registered (s\<lparr>service_principals := AList.update i a (service_principals s), heap := h, validated := v\<rparr>) k b"
  by (auto simp: registered_def update_conv')

lemma registered_mono_groups:
  "map_of (groups s) i = None \<Longrightarrow> registered s k b \<Longrightarrow>
   registered (s\<lparr>groups := AList.update i a (groups s), heap := h, validated := v\<rparr>) k b"
  by (auto simp: registered_def update_conv')

lemma keyedD:
  "keyed s al \<Longrightarrow> map_of al k = Some a \<Longrightarrow> a < length (heap s) \<and> k = JStr (ent_id (heap s ! a))"
  unfolding keyed_def by blast

lemma keyed_grow:
  assumes "keyed s al" and "heap s' = heap s @ [obj]"
  shows "keyed s' al"
  unfolding keyed_def
proof (intro allI impI)
  fix k a
  assume "map_of al k = Some a"
  with assms(1) have "a < length (heap s)" "k = JStr (ent_id (heap s ! a))"
    by (auto dest: keyedD)
  with assms(2) show "a < length (heap s') \<and> k = JStr (ent_id (heap s' ! a))"
    by (simp add: nth_append)
qed

lemma keyed_new:
  assumes "keyed s al" and "heap s' = heap s @ [obj]"
  shows "keyed s' (AList.update (JStr (ent_id obj)) (length (heap s)) al)"
  unfolding keyed_def
proof (intro allI impI)
  fix k a
  assume m: "map_of (AList.update (JStr (ent_id obj)) (length (heap s)) al) k = Some a"
  show "a < length (heap s') \<and> k = JStr (ent_id (heap s' ! a))"
  proof (cases "k = JStr (ent_id obj)")
    case True
    with m have "a = length (heap s)" by (simp add: update_conv')
    with True assms(2) show ?thesis by simp
  next
    case False
    with m have "map_of al k = Some a" by (simp add: update_conv')
    with assms(1) have "a < length (heap s)" "k = JStr (ent_id (heap s ! a))"
      by (auto dest: keyedD)
    with assms(2) show ?thesis by (simp add: nth_append)
  qed
qed

lemma groups_are_groups_grow:
  assumes "groups_are_groups s" and "keyed s (groups s)"
    and "heap s' = heap s @ [obj]" and "groups s' = groups s"
  shows "groups_are_groups s'"
  unfolding groups_are_groups_def
proof (intro allI impI)
  fix k a
  assume "map_of (groups s') k = Some a"
  with assms(4) have m: "map_of (groups s) k = Some a" by simp
  with assms(2) have "a < length (heap s)" by (auto dest: keyedD)
  moreover from m assms(1) have "is_group (heap s ! a)"
    unfolding groups_are_groups_def by blast
  ultimately show "is_group (heap s' ! a)" using assms(3) by (simp add: nth_append)
qed

lemma groups_are_groups_new:
  assumes "groups_are_groups s" and "keyed s (groups s)"
    and "heap s' = heap s @ [obj]" and "groups s' = AList.update i (length (heap s)) (groups s)"
    and "is_group obj"
  shows "groups_are_groups s'"
  unfolding groups_are_groups_def
proof (intro allI impI)
  fix k a
  assume m: "map_of (groups s') k = Some a"
  show "is_group (heap s' ! a)"
  proof (cases "k = i")
    case True
    with m assms(4) have "a = length (heap s)" by (simp add: update_conv')
    with assms(3,5) show ?thesis by simp
  next
    case False
    with m assms(4) have m': "map_of (groups s) k = Some a" by (simp add: update_conv')
    with assms(2) have "a < length (heap s)" by (auto dest: keyedD)
    moreover from m' assms(1) have "is_group (heap s ! a)"
      unfolding groups_are_groups_def by blast
    ultimately show ?thesis using assms(3) by (simp add: nth_append)
  qed
qed

lemma linked_grow:
  assumes "linked s" and "heap s' = heap s @ [obj]"
    and mono: "\<And>k b. registered s k b \<Longrightarrow> registered s' k b"
    and new: "\<not> is_group obj \<or> (\<exists>i n mm. obj = GraphGroup i n mm \<and> (mm = Some [] \<or> mm = None))"
  shows "linked s'"
  unfolding linked_def
proof (intro allI impI)
  fix x j n ms k b
  assume x: "x < length (heap s')" and g: "heap s' ! x = GraphGroup j n (Some ms)"
    and m: "map_of ms k = Some b"
  show "registered s' k b"
  proof (cases "x < length (heap s)")
    case True
    with g assms(2) have "heap s ! x = GraphGroup j n (Some ms)" by (simp add: nth_append)
    with True assms(1) m have "registered s k b"
      unfolding linked_def by blast
    then show ?thesis by (rule mono)
  next
    case False
    with x assms(2) have "x = length (heap s)" by simp
    with g assms(2) have "obj = GraphGroup j n (Some ms)" by simp
    with new have "ms = []" by auto
    with m show ?thesis by simp
  qed
qed

lemma r_registered_grow:
  assumes "r_registered s" and "heap s' = heap s @ [obj]" and "r_local s' = r_local s"
    and mono: "\<And>k b. registered s k b \<Longrightarrow> registered s' k b"
  shows "r_registered s'"
  unfolding r_registered_def
proof (intro allI impI)
  fix v
  assume "r_local s' = Some v"
  with assms(3) have "r_local s = Some v" by simp
  with assms(1) obtain a where a: "v = Obj a" "a < length (heap s)"
    "registered s (ent_id (heap s ! a)) a"
    unfolding r_registered_def by blast
  from a(2) assms(2) have "heap s' ! a = heap s ! a" by (simp add: nth_append)
  with a mono [OF a(3)] assms(2)
  show "\<exists>a. v = Obj a \<and> a < length (heap s') \<and> registered s' (ent_id (heap s' ! a)) a"
    by auto
qed

lemma unfetched_empty_grow:
  assumes "unfetched_empty s" and "keyed s (groups s)"
    and "heap s' = heap s @ [obj]" and "groups s' = groups s" and "fetched s' = fetched s"
  shows "unfetched_empty s'"
  unfolding unfetched_empty_def
proof (intro allI impI)
  fix k a
  assume "map_of (groups s') k = Some a" and "k \<notin> set (fetched s')"
  with assms(4,5) have m: "map_of (groups s) k = Some a" "k \<notin> set (fetched s)" by simp_all
  with assms(2) have "a < length (heap s)" by (auto dest: keyedD)
  moreover from m assms(1) have "\<exists>i n. heap s ! a = GraphGroup i n (Some [])"
    unfolding unfetched_empty_def by blast
  ultimately show "\<exists>i n. heap s' ! a = GraphGroup i n (Some [])"
    using assms(3) by (simp add: nth_append)
qed

lemma unfetched_empty_new:
  assumes "unfetched_empty s" and "keyed s (groups s)"
    and "heap s' = heap s @ [GraphGroup j m mm]"
    and "groups s' = AList.update i (length (heap s)) (groups s)"
    and "fetched s' = fetched s"
    and "mm = Some [] \<or> i \<in> set (fetched s)"
  shows "unfetched_empty s'"
  unfolding unfetched_empty_def
proof (intro allI impI)
  fix k a
  assume m: "map_of (groups s') k = Some a" and nf: "k \<notin> set (fetched s')"
  show "\<exists>i n. heap s' ! a = GraphGroup i n (Some [])"
  proof (cases "k = i")
    case True
    with m assms(4) have "a = length (heap s)" by (simp add: update_conv')
    moreover from True nf assms(5,6) have "mm = Some []" by auto
    ultimately show ?thesis using assms(3) by simp
  next
    case False
    with m assms(4) have m': "map_of (groups s) k = Some a" by (simp add: update_conv')
    with assms(2) have "a < length (heap s)" by (auto dest: keyedD)
    moreover from m' nf assms(1,5) have "\<exists>i n. heap s ! a = GraphGroup i n (Some [])"
      unfolding unfetched_empty_def by auto
    ultimately show ?thesis using assms(3) by (simp add: nth_append)
  qed
qed

lemma register_user_wf:
  assumes "register_user d s = Inr (a, s')" and "wf_state s"
  shows "reg_post s a s'"
proof -
  from assms(1) obtain i where i: "map_of d ''id'' = Some i" "hashable i"
    by (auto simp: register_user_def split: option.splits if_splits)
  show ?thesis
  proof (cases "map_of (users s) i")
    case (Some b)
    with assms i have eq: "a = b" "s' = s" by (auto simp: register_user_def)
    from assms(2) have "keyed s (users s)" by (simp add: wf_state_def)
    from keyedD [OF this Some] have "b < length (heap s)" "i = JStr (ent_id (heap s ! b))"
      by simp_all
    with Some have "registered s (ent_id (heap s ! b)) b" by (simp add: registered_def)
    with eq assms(2) \<open>b < length (heap s)\<close> show ?thesis by (simp add: reg_post_def)
  next
    case None
    with assms(1) i obtain obj where obj: "GraphUser_model_validate d = Inr obj"
      and a: "a = length (heap s)"
      and s': "s' = s\<lparr>users := AList.update i a (users s), heap := heap s @ [obj],
                       validated := validated s @ [d]\<rparr>"
      by (auto simp: register_user_def Let_def split: sum.splits)
    from GraphUser_valid_id [OF obj] i have key: "i = JStr (ent_id obj)" and ng: "\<not> is_group obj"
      by simp_all
    have h: "heap s' = heap s @ [obj]" using s' by simp
    have mono: "\<And>k b. registered s k b \<Longrightarrow> registered s' k b"
      unfolding s' using None by (rule registered_mono_users)
    from assms(2) have wf: "keyed s (users s)" "keyed s (service_principals s)"
      "keyed s (groups s)" "groups_are_groups s" "linked s" "r_registered s" "unfetched_empty s"
      by (simp_all add: wf_state_def)
    have 1: "keyed s' (users s')"
      using keyed_new [OF wf(1) h] s' a key by simp
    have 2: "keyed s' (service_principals s')"
      using keyed_grow [OF wf(2) h] s' by simp
    have 3: "keyed s' (groups s')"
      using keyed_grow [OF wf(3) h] s' by simp
    have 4: "groups_are_groups s'"
      by (rule groups_are_groups_grow [OF wf(4) wf(3) h]) (simp add: s')
    have 5: "linked s'"
      by (rule linked_grow [OF wf(5) h mono]) (simp_all add: ng)
    have 6: "r_registered s'"
      by (rule r_registered_grow [OF wf(6) h _ mono]) (simp_all add: s')
    have 7: "unfetched_empty s'"
      by (rule unfetched_empty_grow [OF wf(7) wf(3) h]) (simp_all add: s')
    have reg: "registered s' (ent_id (heap s' ! a)) a"
      using key a s' by (simp add: registered_def update_conv')
    from 1 2 3 4 5 6 7 reg a s' show ?thesis
      by (simp add: reg_post_def wf_state_def nth_append)
  qed
qed

lemma register_service_principal_wf:
  assumes "register_service_principal d s = Inr (a, s')" and "wf_state s"
  shows "reg_post s a s'"
proof -
  from assms(1) obtain i where i: "map_of d ''id'' = Some i" "hashable i"
    by (auto simp: register_service_principal_def split: option.splits if_splits)
  show ?thesis
  proof (cases "map_of (service_principals s) i")
    case (Some b)
    with assms i have eq: "a = b" "s' = s" by (auto simp: register_service_principal_def)
    from assms(2) have "keyed s (service_principals s)" by (simp add: wf_state_def)
    from keyedD [OF this Some] have "b < length (heap s)" "i = JStr (ent_id (heap s ! b))"
      by simp_all
    with Some have "registered s (ent_id (heap s ! b)) b" by (simp add: registered_def)
    with eq assms(2) \<open>b < length (heap s)\<close> show ?thesis by (simp add: reg_post_def)
  next
    case None
    with assms(1) i obtain obj where obj: "GraphServicePrincipal_model_validate d = Inr obj"
      and a: "a = length (heap s)"
      and s': "s' = s\<lparr>service_principals := AList.update i a (service_principals s),
                       heap := heap s @ [obj], validated := validated s @ [d]\<rparr>"
      by (auto simp: register_service_principal_def Let_def split: sum.splits)
    from GraphServicePrincipal_valid_id [OF obj] i
    have key: "i = JStr (ent_id obj)" and ng: "\<not> is_group obj"
      by simp_all
    have h: "heap s' = heap s @ [obj]" using s' by simp
    have mono: "\<And>k b. registered s k b \<Longrightarrow> registered s' k b"
      unfolding s' using None by (rule registered_mono_sps)
    from assms(2) have wf: "keyed s (users s)" "keyed s (service_principals s)"
      "keyed s (groups s)" "groups_are_groups s" "linked s" "r_registered s" "unfetched_empty s"
      by (simp_all add: wf_state_def)
    have 1: "keyed s' (users s')"
      using keyed_grow [OF wf(1) h] s' by simp
    have 2: "keyed s' (service_principals s')"
      using keyed_new [OF wf(2) h] s' a key by simp
    have 3: "keyed s' (groups s')"
      using keyed_grow [OF wf(3) h] s' by simp
    have 4: "groups_are_groups s'"
      by (rule groups_are_groups_grow [OF wf(4) wf(3) h]) (simp add: s')
    have 5: "linked s'"
      by (rule linked_grow [OF wf(5) h mono]) (simp_all add: ng)
    have 6: "r_registered s'"
      by (rule r_registered_grow [OF wf(6) h _ mono]) (simp_all add: s')
    have 7: "unfetched_empty s'"
      by (rule unfetched_empty_grow [OF wf(7) wf(3) h]) (simp_all add: s')
    have reg: "registered s' (ent_id (heap s' ! a)) a"
      using key a s' by (simp add: registered_def update_conv')
    from 1 2 3 4 5 6 7 reg a s' show ?thesis
      by (simp add: reg_post_def wf_state_def nth_append)
  qed
qed

lemma register_group_wf:
  assumes "register_group d s = Inr (a, s')" and "wf_state s" and "\<not> brings_members d"
    and "map_of d ''members'' = Some JNull \<longrightarrow> (\<forall>i. map_of d ''id'' = Some i \<longrightarrow> i \<in> set (fetched s))"
  shows "reg_post s a s'"
proof -
  from assms(1) obtain i where i: "map_of d ''id'' = Some i" "hashable i"
    by (auto simp: register_group_def split: option.splits if_splits)
  show ?thesis
  proof (cases "map_of (groups s) i")
    case (Some b)
    with assms i have eq: "a = b" "s' = s" by (auto simp: register_group_def)
    from assms(2) have "keyed s (groups s)" by (simp add: wf_state_def)
    from keyedD [OF this Some] have "b < length (heap s)" "i = JStr (ent_id (heap s ! b))"
      by simp_all
    with Some have "registered s (ent_id (heap s ! b)) b" by (simp add: registered_def)
    with eq assms(2) \<open>b < length (heap s)\<close> show ?thesis by (simp add: reg_post_def)
  next
    case None
    with assms(1) i obtain obj where obj: "GraphGroup_model_validate d = Inr obj"
      and a': "a = length (store_group obj (heap s)) - 1"
      and s'': "s' = s\<lparr>groups := AList.update i a (groups s),
                       heap := store_group obj (heap s), validated := validated s @ [d]\<rparr>"
      by (auto simp: register_group_def Let_def split: sum.splits)
    from store_group_plain [OF obj assms(3), of "heap s"] i obtain j n mm
      where st: "store_group obj (heap s) = heap s @ [GraphGroup j n mm]" and key: "i = JStr j"
        and mm: "mm = Some [] \<or> mm = None \<and> map_of d ''members'' = Some JNull"
      by auto
    have a: "a = length (heap s)" using a' st by simp
    have s': "s' = s\<lparr>groups := AList.update i a (groups s),
                     heap := heap s @ [GraphGroup j n mm],
                     validated := validated s @ [d]\<rparr>"
      using s'' st by simp
    have h: "heap s' = heap s @ [GraphGroup j n mm]" using s' by simp
    have fetched_or_empty: "mm = Some [] \<or> i \<in> set (fetched s)"
      using mm assms(4) i by auto
    have mono: "\<And>k b. registered s k b \<Longrightarrow> registered s' k b"
      unfolding s' using None by (rule registered_mono_groups)
    from assms(2) have wf: "keyed s (users s)" "keyed s (service_principals s)"
      "keyed s (groups s)" "groups_are_groups s" "linked s" "r_registered s" "unfetched_empty s"
      by (simp_all add: wf_state_def)
    have 1: "keyed s' (users s')"
      using keyed_grow [OF wf(1) h] s' by simp
    have 2: "keyed s' (service_principals s')"
      using keyed_grow [OF wf(2) h] s' by simp
    have 3: "keyed s' (groups s')"
      using keyed_new [OF wf(3) h] s' a key by simp
    have 4: "groups_are_groups s'"
      by (rule groups_are_groups_new [OF wf(4) wf(3) h, of i]) (simp_all add: s' a)
    have 5: "linked s'"
      by (rule linked_grow [OF wf(5) h mono]) (use mm in auto)
    have 6: "r_registered s'"
      by (rule r_registered_grow [OF wf(6) h _ mono]) (simp_all add: s')
    have 7: "unfetched_empty s'"
      by (rule unfetched_empty_new [OF wf(7) wf(3) h, of i])
        (simp_all add: s' a fetched_or_empty)
    have reg: "registered s' (ent_id (heap s' ! a)) a"
      using key a s' by (simp add: registered_def update_conv')
    from 1 2 3 4 5 6 7 reg a s' show ?thesis
      by (simp add: reg_post_def wf_state_def nth_append)
  qed
qed

text \<open>The assignment to \<open>r\<close>, and the insertion into the members of the current group.\<close>

lemma assign_r_wf:
  assumes "assign_r (Inr (a, s1)) = Inr s2" and "reg_post s a s1"
  shows "wf_state s2 \<and> r_local s2 = Some (Obj a) \<and> length (heap s) \<le> length (heap s2)
       \<and> fetched s2 = fetched s \<and> errors s2 = errors s
       \<and> (\<forall>x < length (heap s). heap s2 ! x = heap s ! x)"
proof -
  from assms(1) have s2: "s2 = s1\<lparr>r_local := Some (Obj a)\<rparr>" by (simp add: assign_r_def)
  from assms(2) have p: "wf_state s1" "a < length (heap s1)"
    "registered s1 (ent_id (heap s1 ! a)) a" "length (heap s) \<le> length (heap s1)"
    "fetched s1 = fetched s" "errors s1 = errors s"
    "\<forall>x < length (heap s). heap s1 ! x = heap s ! x"
    by (simp_all add: reg_post_def)
  have "registered s2 (ent_id (heap s2 ! a)) a"
    using p(3) s2 by (simp add: registered_def)
  then have "r_registered s2" using p(2) s2 by (simp add: r_registered_def)
  moreover have "keyed s2 (users s2)" "keyed s2 (service_principals s2)" "keyed s2 (groups s2)"
    "groups_are_groups s2" "unfetched_empty s2"
    using p(1) s2
    by (simp_all add: wf_state_def keyed_def groups_are_groups_def unfetched_empty_def)
  moreover have "linked s2"
    using p(1) s2 by (simp add: wf_state_def linked_def registered_def)
  ultimately show ?thesis using s2 p by (simp add: wf_state_def)
qed

lemma set_member_wf:
  assumes "set_member grp k a s = Inr s'" and "loop_inv grp s"
    and "a < length (heap s)" and "k = ent_id (heap s ! a)" and "registered s k a"
  shows "loop_inv grp s' \<and> errors s' = errors s \<and> fetched s' = fetched s"
proof -
  from assms(1) obtain i n ms where g: "heap s ! grp = GraphGroup i n (Some ms)"
    and s': "s' = s\<lparr>heap := (heap s)[grp := GraphGroup i n (Some (AList.update k a ms))]\<rparr>"
    by (auto simp: set_member_def split: entity.splits option.splits)
  from assms(2) have wf: "keyed s (users s)" "keyed s (service_principals s)"
    "keyed s (groups s)" "groups_are_groups s" "linked s" "r_registered s" "unfetched_empty s"
    and grp: "grp < length (heap s)" and fetched: "JStr i \<in> set (fetched s)"
    using g by (simp_all add: loop_inv_def wf_state_def)
  have len: "length (heap s') = length (heap s)" using s' by simp
  have same_id: "ent_id (heap s' ! x) = ent_id (heap s ! x)" if "x < length (heap s)" for x
    using that s' g by (cases "x = grp") simp_all
  have same_grp: "is_group (heap s' ! x)" if "x < length (heap s)" "is_group (heap s ! x)" for x
    using that s' g by (cases "x = grp") simp_all
  have reg_eq: "\<And>key b. registered s' key b = registered s key b"
    using s' by (simp add: registered_def)
  have keyed_same: "\<And>al. keyed s al \<Longrightarrow> keyed s' al"
    unfolding keyed_def using len same_id by auto
  have 4: "groups_are_groups s'"
    unfolding groups_are_groups_def
  proof (intro allI impI)
    fix key x
    assume "map_of (groups s') key = Some x"
    then have m: "map_of (groups s) key = Some x" using s' by simp
    from keyedD [OF wf(3) m] have "x < length (heap s)" by simp
    moreover from m wf(4) have "is_group (heap s ! x)" unfolding groups_are_groups_def by blast
    ultimately show "is_group (heap s' ! x)" by (rule same_grp)
  qed
  have 5: "linked s'"
    unfolding linked_def
  proof (intro allI impI)
    fix x j m mm key b
    assume x: "x < length (heap s')" and o: "heap s' ! x = GraphGroup j m (Some mm)"
      and u: "map_of mm key = Some b"
    show "registered s' key b"
    proof (cases "x = grp")
      case True
      with o s' grp have mm: "mm = AList.update k a ms" by simp
      show ?thesis
      proof (cases "key = k")
        case True
        with u mm have "b = a" by (simp add: update_conv')
        with True assms(5) show ?thesis by (simp add: reg_eq)
      next
        case False
        with u mm have "map_of ms key = Some b" by (simp add: update_conv')
        with wf(5) grp g have "registered s key b" unfolding linked_def by blast
        then show ?thesis by (simp add: reg_eq)
      qed
    next
      case False
      with o s' have old: "heap s ! x = GraphGroup j m (Some mm)" by simp
      from x len have "x < length (heap s)" by simp
      with old wf(5) u have "registered s key b"
        unfolding linked_def by blast
      then show ?thesis by (simp add: reg_eq)
    qed
  qed
  have 6: "r_registered s'"
    unfolding r_registered_def
  proof (intro allI impI)
    fix v
    assume "r_local s' = Some v"
    then have "r_local s = Some v" using s' by simp
    with wf(6) obtain b where b: "v = Obj b" "b < length (heap s)"
      "registered s (ent_id (heap s ! b)) b"
      unfolding r_registered_def by blast
    with same_id [OF b(2)] len
    show "\<exists>a. v = Obj a \<and> a < length (heap s') \<and> registered s' (ent_id (heap s' ! a)) a"
      by (auto simp: reg_eq)
  qed
  have 7: "unfetched_empty s'"
    unfolding unfetched_empty_def
  proof (intro allI impI)
    fix key x
    assume "map_of (groups s') key = Some x" and "key \<notin> set (fetched s')"
    then have m: "map_of (groups s) key = Some x" and nf: "key \<notin> set (fetched s)"
      using s' by simp_all
    from keyedD [OF wf(3) m] have "key = JStr (ent_id (heap s ! x))" by simp
    with nf fetched g have "x \<noteq> grp" by auto
    then have "heap s' ! x = heap s ! x" using s' by simp
    moreover from m nf wf(7) have "\<exists>i n. heap s ! x = GraphGroup i n (Some [])"
      unfolding unfetched_empty_def by blast
    ultimately show "\<exists>i n. heap s' ! x = GraphGroup i n (Some [])" by simp
  qed
  have "wf_state s'"
    using keyed_same [OF wf(1)] keyed_same [OF wf(2)] keyed_same [OF wf(3)] 4 5 6 7 s'
    by (simp add: wf_state_def)
  moreover have "JStr (ent_id (heap s' ! grp)) \<in> set (fetched s')"
    using same_id [OF grp] g fetched s' by simp
  ultimately show ?thesis using len grp s' by (simp add: loop_inv_def)
qed

lemma link_member_wf:
  assumes "link_member m grp s = Inr s'" and "loop_inv grp s"
  shows "loop_inv grp s' \<and> errors s' = errors s \<and> fetched s' = fetched s"
proof -
  from assms(2) have rr: "r_registered s" by (simp add: loop_inv_def wf_state_def)
  from assms(1) obtain v where v: "r_local s = Some v"
    by (auto simp: link_member_def split: option.splits)
  with rr obtain a where a: "v = Obj a" "a < length (heap s)"
    "registered s (ent_id (heap s ! a)) a"
    unfolding r_registered_def by blast
  with assms(1) v have "set_member grp (ent_id (heap s ! a)) a s = Inr s'"
    by (simp add: link_member_def)
  from set_member_wf [OF this assms(2) a(2) refl a(3)] show ?thesis .
qed

lemma assign_keeps_loop_inv:
  assumes "assign_r (Inr (a, s1)) = Inr s2" and "reg_post s a s1" and "loop_inv grp s"
  shows "loop_inv grp s2 \<and> errors s2 = errors s \<and> fetched s2 = fetched s"
proof -
  from assign_r_wf [OF assms(1,2)] have p: "wf_state s2" "length (heap s) \<le> length (heap s2)"
    "fetched s2 = fetched s" "errors s2 = errors s"
    "\<forall>x < length (heap s). heap s2 ! x = heap s ! x"
    by simp_all
  from assms(3) have g: "grp < length (heap s)" "JStr (ent_id (heap s ! grp)) \<in> set (fetched s)"
    by (simp_all add: loop_inv_def)
  with p show ?thesis by (simp add: loop_inv_def)
qed

lemma process_member_wf:
  assumes "process_member m0 grp s = Inr s'" and "loop_inv grp s"
    and "is_group_record m0 \<longrightarrow> \<not> brings_members m0"
  shows "loop_inv grp s' \<and> errors s' = errors s \<and> fetched s' = fetched s"
proof -
  let ?m = "strip_none m0"
  from assms(1) obtain t where t: "map_of ?m ''@odata.type'' = Some t"
    by (auto simp: process_member_def Let_def split: option.splits)
  from assms(1) t obtain s1 s2 s3 where
    1: "(if t = JStr ''#microsoft.graph.user'' then assign_r (register_user ?m s) else Inr s) = Inr s1"
    and 2: "(if t = JStr ''#microsoft.graph.servicePrincipal''
             then assign_r (register_service_principal ?m s1) else Inr s1) = Inr s2"
    and 3: "(if t = JStr ''#microsoft.graph.group''
             then assign_r (register_group ?m s2) else Inr s2) = Inr s3"
    and 4: "link_member ?m grp s3 = Inr s'"
    by (auto simp: process_member_def Let_def split: sum.splits)
  have i1: "loop_inv grp s1 \<and> errors s1 = errors s \<and> fetched s1 = fetched s"
  proof (cases "t = JStr ''#microsoft.graph.user''")
    case True
    with 1 obtain a s0 where r: "register_user ?m s = Inr (a, s0)" and as: "assign_r (Inr (a, s0)) = Inr s1"
      by (cases "register_user ?m s") (auto simp: assign_r_def)
    from assms(2) have "wf_state s" by (simp add: loop_inv_def)
    from assign_keeps_loop_inv [OF as register_user_wf [OF r this] assms(2)] show ?thesis .
  next
    case False
    with 1 assms(2) show ?thesis by simp
  qed
  have i2: "loop_inv grp s2 \<and> errors s2 = errors s1 \<and> fetched s2 = fetched s1"
  proof (cases "t = JStr ''#microsoft.graph.servicePrincipal''")
    case True
    with 2 obtain a s0 where r: "register_service_principal ?m s1 = Inr (a, s0)"
      and as: "assign_r (Inr (a, s0)) = Inr s2"
      by (cases "register_service_principal ?m s1") (auto simp: assign_r_def)
    from i1 have "wf_state s1" by (simp add: loop_inv_def)
    from assign_keeps_loop_inv [OF as register_service_principal_wf [OF r this]] i1
    show ?thesis by blast
  next
    case False
    with 2 i1 show ?thesis by simp
  qed
  have i3: "loop_inv grp s3 \<and> errors s3 = errors s2 \<and> fetched s3 = fetched s2"
  proof (cases "t = JStr ''#microsoft.graph.group''")
    case True
    with 3 obtain a s0 where r: "register_group ?m s2 = Inr (a, s0)"
      and as: "assign_r (Inr (a, s0)) = Inr s3"
      by (cases "register_group ?m s2") (auto simp: assign_r_def)
    from i2 have "wf_state s2" by (simp add: loop_inv_def)
    from True t assms(3) have nm: "\<not> brings_members ?m"
      by (simp add: is_group_record_def brings_members_strip)
    have nn: "map_of ?m ''members'' = Some JNull \<longrightarrow>
        (\<forall>i. map_of ?m ''id'' = Some i \<longrightarrow> i \<in> set (fetched s2))"
      by (simp add: strip_none_no_null)
    from assign_keeps_loop_inv [OF as register_group_wf [OF r \<open>wf_state s2\<close> nm nn]] i2
    show ?thesis by blast
  next
    case False
    with 3 i2 show ?thesis by simp
  qed
  from link_member_wf [OF 4] i1 i2 i3 show ?thesis by simp
qed

lemma for_members_wf:
  assumes "for_members ms grp s = Inr s'" and "loop_inv grp s"
    and "\<forall>m\<in>set ms. is_group_record m \<longrightarrow> \<not> brings_members m"
  shows "loop_inv grp s' \<and> errors s' = errors s \<and> fetched s' = fetched s"
  using assms
proof (induction ms arbitrary: s)
  case Nil
  then show ?case by simp
next
  case (Cons m ms)
  from Cons.prems(1) obtain s1 where 1: "process_member m grp s = Inr s1"
    and 2: "for_members ms grp s1 = Inr s'"
    by (auto split: sum.splits)
  from Cons.prems(3) have nm: "is_group_record m \<longrightarrow> \<not> brings_members m" by simp
  from process_member_wf [OF 1 Cons.prems(2) nm]
  have a: "loop_inv grp s1" "errors s1 = errors s" "fetched s1 = fetched s" by simp_all
  from Cons.IH [OF 2 a(1)] Cons.prems(3) a show ?case by simp
qed

text \<open>The loop over the names.\<close>

lemma no_members_brought_Cons:
  "no_members_brought T (g # gs) \<Longrightarrow> no_members_brought T [g] \<and> no_members_brought T gs"
  by (simp add: no_members_brought_def)

lemma wf_state_fetch: "wf_state s \<Longrightarrow> wf_state (s\<lparr>fetched := fetched s @ [gid]\<rparr>)"
  by (simp add: wf_state_def keyed_def groups_are_groups_def linked_def r_registered_def
      unfetched_empty_def registered_def)

lemma wf_state_init: "wf_state GraphSyncObject"
  by (simp add: wf_state_def keyed_def groups_are_groups_def linked_def r_registered_def
      unfetched_empty_def GraphSyncObject_def)

lemma process_group_name_wf:
  assumes "process_group_name T g s = Inr s'" and "wf_state s" and "no_members_brought T [g]"
  shows "wf_state s'"
  using assms(1)
proof (cases rule: process_group_name_cases)
  case skipped
  with assms(2) show ?thesis by simp
next
  case (resolved group_info gid ms a s1 grp)
  from assms(3) resolved(1,3,5)
  have nm: "\<not> brings_members group_info"
    and mem: "\<forall>m\<in>set ms. is_group_record m \<longrightarrow> \<not> brings_members m"
    unfolding no_members_brought_def by auto
  have nn: "map_of group_info ''members'' = Some JNull \<longrightarrow>
      (\<forall>i. map_of group_info ''id'' = Some i \<longrightarrow> i \<in> set (fetched (s\<lparr>fetched := fetched s @ [gid]\<rparr>)))"
    using resolved(3) by simp
  from register_group_wf [OF resolved(6) wf_state_fetch [OF assms(2)] nm nn]
  have p: "wf_state s1" "fetched s1 = fetched s @ [gid]"
    by (simp_all add: reg_post_def)
  from p(1) have "keyed s1 (groups s1)" by (simp add: wf_state_def)
  from keyedD [OF this resolved(7)]
  have "grp < length (heap s1)" "gid = JStr (ent_id (heap s1 ! grp))" by simp_all
  with p have "loop_inv grp s1" by (simp add: loop_inv_def)
  from for_members_wf [OF resolved(8) this mem]
  show ?thesis by (simp add: loop_inv_def)
qed

lemma for_group_names_wf:
  "for_group_names T names s = Inr s' \<Longrightarrow> wf_state s \<Longrightarrow> no_members_brought T names \<Longrightarrow>
   wf_state s'"
proof (induction names arbitrary: s)
  case Nil
  then show ?case by simp
next
  case (Cons g gs)
  from Cons.prems(1) obtain s1 where 1: "process_group_name T g s = Inr s1"
    and 2: "for_group_names T gs s1 = Inr s'"
    by (auto split: sum.splits)
  from no_members_brought_Cons [OF Cons.prems(3)]
  have h: "no_members_brought T [g]" "no_members_brought T gs" by simp_all
  from process_group_name_wf [OF 1 Cons.prems(2) h(1)] have "wf_state s1" .
  from Cons.IH [OF 2 this h(2)] show ?case .
qed

text \<open>The groups mapping, whatever the records bring.\<close>

lemma groups_okD:
  assumes "groups_ok s" and "map_of (groups s) i = Some a"
  shows "\<exists>j n mm. heap s ! a = GraphGroup j n mm \<and> i = JStr j \<and> a < length (heap s)"
proof -
  from assms have k: "a < length (heap s)" "i = JStr (ent_id (heap s ! a))"
    and g: "is_group (heap s ! a)"
    by (auto simp: groups_ok_def groups_are_groups_def dest: keyedD)
  from g obtain j n mm where "heap s ! a = GraphGroup j n mm"
    by (cases "heap s ! a") auto
  with k show ?thesis by simp
qed

lemma groups_ok_extends:
  assumes "groups_ok s" and "extends s s'" and "groups s' = groups s"
  shows "groups_ok s'"
proof -
  have "keyed s' (groups s')"
    unfolding keyed_def
  proof (intro allI impI)
    fix k a
    assume "map_of (groups s') k = Some a"
    with assms(3) have m: "map_of (groups s) k = Some a" by simp
    with assms(1) have "a < length (heap s)" "k = JStr (ent_id (heap s ! a))"
      by (auto simp: groups_ok_def dest: keyedD)
    with assms(2) show "a < length (heap s') \<and> k = JStr (ent_id (heap s' ! a))"
      by (simp add: extends_def)
  qed
  moreover have "groups_are_groups s'"
    unfolding groups_are_groups_def
  proof (intro allI impI)
    fix k a
    assume "map_of (groups s') k = Some a"
    with assms(3) have m: "map_of (groups s) k = Some a" by simp
    with assms(1) have "a < length (heap s)" "is_group (heap s ! a)"
      by (auto simp: groups_ok_def groups_are_groups_def dest: keyedD)
    with assms(2) show "is_group (heap s' ! a)" by (simp add: extends_def)
  qed
  ultimately show ?thesis by (simp add: groups_ok_def)
qed

lemma store_group_last:
  assumes "GraphGroup_model_validate d = Inr obj"
  shows "\<exists>pre j n mm. store_group obj h = h @ pre @ [GraphGroup j n mm]
           \<and> map_of d ''id'' = Some (JStr j)"
proof -
  from assms obtain j n ms where o: "obj = GraphGroup j n ms"
    and k: "map_of d ''id'' = Some (JStr j)"
    by (auto simp: GraphGroup_model_validate_def str_field_Some_single split: option.splits)
  show ?thesis
  proof (cases ms)
    case None
    with o have "store_group obj h = h @ [] @ [GraphGroup j n None]" by simp
    with k show ?thesis by blast
  next
    case (Some kbs)
    with o have "store_group obj h =
        h @ map (base_object \<circ> snd) kbs @ [GraphGroup j n (Some (store_members kbs (length h)))]"
      by simp
    with k show ?thesis by blast
  qed
qed

lemma register_group_groups_ok:
  assumes "register_group d s = Inr (a, s')" and "groups_ok s"
  shows "groups_ok s'"
proof -
  from assms(1) obtain i where i: "map_of d ''id'' = Some i" "hashable i"
    by (auto simp: register_group_def split: option.splits if_splits)
  show ?thesis
  proof (cases "map_of (groups s) i")
    case (Some b)
    with assms i show ?thesis by (auto simp: register_group_def)
  next
    case None
    with assms(1) i obtain obj where obj: "GraphGroup_model_validate d = Inr obj"
      and a: "a = length (store_group obj (heap s)) - 1"
      and s': "s' = s\<lparr>groups := AList.update i a (groups s),
                       heap := store_group obj (heap s), validated := validated s @ [d]\<rparr>"
      by (auto simp: register_group_def Let_def split: sum.splits)
    from store_group_last [OF obj, of "heap s"] i obtain pre j n mm
      where st: "store_group obj (heap s) = heap s @ pre @ [GraphGroup j n mm]"
        and key: "i = JStr j"
      by auto
    from a st have a': "a = length (heap s) + length pre" by simp
    from s' st have h: "heap s' = heap s @ pre @ [GraphGroup j n mm]" by simp
    have new: "heap s' ! a = GraphGroup j n mm" using h a' by (simp add: nth_append)
    have old: "heap s' ! x = heap s ! x" if "x < length (heap s)" for x
      using that h by (simp add: nth_append)
    from assms(2) have k: "keyed s (groups s)" and g: "groups_are_groups s"
      by (simp_all add: groups_ok_def)
    have "keyed s' (groups s')"
      unfolding keyed_def
    proof (intro allI impI)
      fix k' b
      assume m: "map_of (groups s') k' = Some b"
      show "b < length (heap s') \<and> k' = JStr (ent_id (heap s' ! b))"
      proof (cases "k' = i")
        case True
        with m s' have "b = a" by (simp add: update_conv')
        with True key new a' h show ?thesis by simp
      next
        case False
        with m s' have "map_of (groups s) k' = Some b" by (simp add: update_conv')
        from keyedD [OF k this] old [of b] h show ?thesis by simp
      qed
    qed
    moreover have "groups_are_groups s'"
      unfolding groups_are_groups_def
    proof (intro allI impI)
      fix k' b
      assume m: "map_of (groups s') k' = Some b"
      show "is_group (heap s' ! b)"
      proof (cases "k' = i")
        case True
        with m s' have "b = a" by (simp add: update_conv')
        with new show ?thesis by simp
      next
        case False
        with m s' have m': "map_of (groups s) k' = Some b" by (simp add: update_conv')
        from keyedD [OF k m'] have "b < length (heap s)" by simp
        moreover from g m' have "is_group (heap s ! b)"
          unfolding groups_are_groups_def by blast
        ultimately show ?thesis using old [of b] by simp
      qed
    qed
    ultimately show ?thesis by (simp add: groups_ok_def)
  qed
qed

lemma register_user_groups: "register_user d s = Inr (a, s') \<Longrightarrow> groups s' = groups s"
  by (auto simp: register_user_def Let_def split: option.splits if_splits sum.splits)

lemma register_service_principal_groups:
  "register_service_principal d s = Inr (a, s') \<Longrightarrow> groups s' = groups s"
  by (auto simp: register_service_principal_def Let_def split: option.splits if_splits sum.splits)

lemma link_member_groups: "link_member m grp s = Inr s' \<Longrightarrow> groups s' = groups s"
  by (auto simp: link_member_def set_member_def
      split: option.splits pyval.splits entity.splits)

lemma groups_ok_r: "groups_ok (s\<lparr>r_local := v\<rparr>) = groups_ok s"
  by (simp add: groups_ok_def keyed_def groups_are_groups_def)

lemma groups_ok_fetch: "groups_ok (s\<lparr>fetched := f\<rparr>) = groups_ok s"
  by (simp add: groups_ok_def keyed_def groups_are_groups_def)

lemma process_member_groups_ok:
  assumes "process_member m0 grp s = Inr s'" and "groups_ok s"
  shows "groups_ok s'"
  using assms(1)
proof (cases rule: process_member_steps)
  case (1 t s1 s2 s3)
  have g1: "groups_ok s1"
  proof (cases "t = JStr ''#microsoft.graph.user''")
    case True
    with 1(2) obtain a s0 where r: "register_user (strip_none m0) s = Inr (a, s0)"
      and s1: "s1 = s0\<lparr>r_local := Some (Obj a)\<rparr>"
      by (cases "register_user (strip_none m0) s") (auto simp: assign_r_def)
    from groups_ok_extends [OF assms(2) register_user_extends [OF r] register_user_groups [OF r]]
    show ?thesis by (simp add: s1 groups_ok_r)
  next
    case False
    with 1(2) assms(2) show ?thesis by simp
  qed
  have g2: "groups_ok s2"
  proof (cases "t = JStr ''#microsoft.graph.servicePrincipal''")
    case True
    with 1(3) obtain a s0 where r: "register_service_principal (strip_none m0) s1 = Inr (a, s0)"
      and s2: "s2 = s0\<lparr>r_local := Some (Obj a)\<rparr>"
      by (cases "register_service_principal (strip_none m0) s1") (auto simp: assign_r_def)
    from groups_ok_extends [OF g1 register_service_principal_extends [OF r]
        register_service_principal_groups [OF r]]
    show ?thesis by (simp add: s2 groups_ok_r)
  next
    case False
    with 1(3) g1 show ?thesis by simp
  qed
  have g3: "groups_ok s3"
  proof (cases "t = JStr ''#microsoft.graph.group''")
    case True
    with 1(4) obtain a s0 where r: "register_group (strip_none m0) s2 = Inr (a, s0)"
      and s3: "s3 = s0\<lparr>r_local := Some (Obj a)\<rparr>"
      by (cases "register_group (strip_none m0) s2") (auto simp: assign_r_def)
    from register_group_groups_ok [OF r g2] show ?thesis by (simp add: s3 groups_ok_r)
  next
    case False
    with 1(4) g2 show ?thesis by simp
  qed
  from groups_ok_extends [OF g3 link_member_extends [OF 1(5)] link_member_groups [OF 1(5)]]
  show ?thesis .
qed

lemma for_members_groups_ok:
  "for_members ms grp s = Inr s' \<Longrightarrow> groups_ok s \<Longrightarrow> groups_ok s'"
proof (induction ms arbitrary: s)
  case Nil
  then show ?case by simp
next
  case (Cons m ms)
  from Cons.prems(1) obtain s1 where 1: "process_member m grp s = Inr s1"
    and 2: "for_members ms grp s1 = Inr s'"
    by (auto split: sum.splits)
  from Cons.IH [OF 2 process_member_groups_ok [OF 1 Cons.prems(2)]] show ?case .
qed

lemma process_group_name_groups_ok:
  assumes "process_group_name T g s = Inr s'" and "groups_ok s"
  shows "groups_ok s'"
  using assms(1)
proof (cases rule: process_group_name_cases)
  case skipped
  with assms(2) show ?thesis by simp
next
  case (resolved group_info gid ms a s1 grp)
  from assms(2) have "groups_ok (s\<lparr>fetched := fetched s @ [gid]\<rparr>)" by (simp add: groups_ok_fetch)
  from register_group_groups_ok [OF resolved(6) this] have "groups_ok s1" .
  from for_members_groups_ok [OF resolved(8) this] show ?thesis .
qed

lemma for_group_names_groups_ok:
  "for_group_names T names s = Inr s' \<Longrightarrow> groups_ok s \<Longrightarrow> groups_ok s'"
proof (induction names arbitrary: s)
  case Nil
  then show ?case by simp
next
  case (Cons g gs)
  from Cons.prems(1) obtain s1 where 1: "process_group_name T g s = Inr s1"
    and 2: "for_group_names T gs s1 = Inr s'"
    by (auto split: sum.splits)
  from Cons.IH [OF 2 process_group_name_groups_ok [OF 1 Cons.prems(2)]] show ?case .
qed

text \<open>Each member of each resolved group has gone through the loop body.\<close>

lemma for_members_passed:
  "for_members ms grp s = Inr s' \<Longrightarrow> m \<in> set ms \<Longrightarrow>
   \<exists>sa sb. process_member m grp sa = Inr sb \<and> extends sb s'"
proof (induction ms arbitrary: s)
  case Nil
  then show ?case by simp
next
  case (Cons x xs)
  from Cons.prems(1) obtain s1 where 1: "process_member x grp s = Inr s1"
    and 2: "for_members xs grp s1 = Inr s'"
    by (auto split: sum.splits)
  show ?case
  proof (cases "m = x")
    case True
    with 1 for_members_extends [OF 2] show ?thesis by blast
  next
    case False
    with Cons.prems(2) have "m \<in> set xs" by simp
    from Cons.IH [OF 2 this] show ?thesis .
  qed
qed

lemma for_group_names_passed:
  "for_group_names T names s = Inr s' \<Longrightarrow> g \<in> set names \<Longrightarrow>
   \<exists>sa sb. process_group_name T g sa = Inr sb \<and> extends sb s'"
proof (induction names arbitrary: s)
  case Nil
  then show ?case by simp
next
  case (Cons x xs)
  from Cons.prems(1) obtain s1 where 1: "process_group_name T x s = Inr s1"
    and 2: "for_group_names T xs s1 = Inr s'"
    by (auto split: sum.splits)
  show ?case
  proof (cases "g = x")
    case True
    with 1 for_group_names_extends [OF 2] show ?thesis by blast
  next
    case False
    with Cons.prems(2) have "g \<in> set xs" by simp
    from Cons.IH [OF 2 this] show ?thesis .
  qed
qed

lemma group_member_registered:
  assumes "process_member m grp s = Inr s'" and "is_group_record m"
    and "map_of (strip_none m) ''id'' = Some i"
  shows "\<exists>a. map_of (groups s') i = Some a"
  using assms(1)
proof (cases rule: process_member_steps)
  case (1 t s1 s2 s3)
  from 1(1) assms(2) have t: "t = JStr ''#microsoft.graph.group''"
    by (simp add: is_group_record_def)
  with 1(4) obtain a s0 where r: "register_group (strip_none m) s2 = Inr (a, s0)"
    and s3: "s3 = s0\<lparr>r_local := Some (Obj a)\<rparr>"
    by (cases "register_group (strip_none m) s2") (auto simp: assign_r_def)
  from register_group_first [OF r assms(3)] s3 have "map_of (groups s3) i = Some a" by simp
  with link_member_groups [OF 1(5)] show ?thesis by auto
qed

lemma nested_groups_registered:
  assumes "get_objects_for_sync T group_names = Inr s" and "name \<in> set group_names"
    and "get_group_by_name T name = Inr (Some group_info)" and "group_info \<noteq> []"
    and "map_of group_info ''id'' = Some gid" and "get_group_members T gid = Inr (Some ms)"
    and "m \<in> set ms" and "is_group_record m" and "map_of (strip_none m) ''id'' = Some i"
  shows "\<exists>a j n mm. map_of (groups s) i = Some a \<and> heap s ! a = GraphGroup j n mm \<and> i = JStr j"
proof -
  from assms(1) have run: "for_group_names T group_names GraphSyncObject = Inr s"
    by (simp add: get_objects_for_sync_def)
  have "groups_ok GraphSyncObject"
    by (simp add: groups_ok_def keyed_def groups_are_groups_def GraphSyncObject_def)
  from for_group_names_groups_ok [OF run this] have ok: "groups_ok s" .
  from for_group_names_passed [OF run assms(2)] obtain sa sb
    where p: "process_group_name T name sa = Inr sb" and e: "extends sb s" by blast
  from process_group_name_start [OF p assms(3,4,5,6)] obtain s1 grp
    where "for_members ms grp s1 = Inr sb" by blast
  from for_members_passed [OF this assms(7)] obtain sc sd
    where q: "process_member m grp sc = Inr sd" and e': "extends sd sb" by blast
  from group_member_registered [OF q assms(8,9)] obtain a
    where "map_of (groups sd) i = Some a" by blast
  with extends_trans [OF e' e] have "map_of (groups s) i = Some a" by (simp add: extends_def)
  with groups_okD [OF ok] show ?thesis by blast
qed

text \<open>Replies that keep to the selected fields bring no members.\<close>

lemma obeys_select_no_members:
  assumes "obeys_select T"
  shows "no_members_brought T names"
proof -
  have none: "map_of d ''members'' = None" if "selected fs d" "''members'' \<notin> set fs" for d fs
  proof (cases "map_of d ''members''")
    case None
    then show ?thesis .
  next
    case (Some v)
    then have "(''members'', v) \<in> set d" by (rule map_of_SomeD)
    then have "''members'' \<in> fst ` set d" by force
    with that(1) have "''members'' \<in> set fs \<or> take 1 ''members'' = ''@''"
      unfolding selected_def by blast
    with that(2) show ?thesis by simp
  qed
  show ?thesis
    unfolding no_members_brought_def
  proof (intro ballI allI impI conjI)
    fix name group_info
    assume "get_group_by_name T name = Inr (Some group_info)"
    then have "groups_named T name = Reply (Some [group_info])"
      by (auto simp: get_group_by_name_def split: response.splits option.splits list.splits)
    with assms have "selected [''id'', ''displayName''] group_info"
      unfolding obeys_select_def by fastforce
    from none [OF this] show "\<not> brings_members group_info" by (simp add: brings_members_def)
  next
    fix name group_info gid ms m
    assume "get_group_members T gid = Inr (Some ms)" and m: "m \<in> set ms"
    then have "members_of T gid = Reply (Some ms)"
      by (auto simp: get_group_members_def split: response.splits)
    with assms m have "selected [''id'', ''displayName'', ''mail'', ''mailNickname'', ''appId'',
        ''accountEnabled''] m"
      unfolding obeys_select_def by blast
    from none [OF this] show "\<not> brings_members m" by (simp add: brings_members_def)
  qed
qed

lemma select_T_two: "obeys_select T_two"
  by (auto simp: obeys_select_def selected_def T_two_def user_rec_def group_rec_def
      split: if_splits)

text \<open>
  C6. The two queries of the transport do not select \<open>members\<close>, so no record that a run
  validates as a group brings members of its own. For every result of a completed run of
  that kind, and every group of its \<open>groups\<close> mapping: each key of the group's members
  dictionary is a key of \<open>users\<close>, \<open>service_principals\<close> or \<open>groups\<close> of the same result,
  and what that mapping stores under the key is the very object the members dictionary holds.
\<close>

theorem group_linkage:
  assumes "no_members_brought T group_names" and "get_objects_for_sync T group_names = Inr s"
    and "map_of (groups s) g = Some a"
  shows "\<exists>i n mm. heap s ! a = GraphGroup i n mm \<and> g = JStr i
           \<and> (\<forall>ms k b. mm = Some ms \<longrightarrow> map_of ms k = Some b \<longrightarrow>
                  map_of (users s) (JStr k) = Some b
                \<or> map_of (service_principals s) (JStr k) = Some b
                \<or> map_of (groups s) (JStr k) = Some b)"
proof -
  from assms(2) have run: "for_group_names T group_names GraphSyncObject = Inr s"
    by (simp add: get_objects_for_sync_def)
  from for_group_names_wf [OF run wf_state_init assms(1)]
  have wf: "keyed s (groups s)" "groups_are_groups s" "linked s"
    by (simp_all add: wf_state_def)
  from keyedD [OF wf(1) assms(3)]
  have a: "a < length (heap s)" and k: "g = JStr (ent_id (heap s ! a))" by simp_all
  from wf(2) assms(3) have "is_group (heap s ! a)" unfolding groups_are_groups_def by blast
  then obtain i n mm where o: "heap s ! a = GraphGroup i n mm"
    by (cases "heap s ! a") auto
  have "registered s k b" if "mm = Some ms" and "map_of ms k = Some b" for ms k b
    using that a o wf(3) unfolding linked_def by blast
  with o k show ?thesis unfolding registered_def by auto
qed

theorem group_linkage_witness:
  "obeys_select T_two \<and> no_members_brought T_two [''G1'', ''G2'']
   \<and> get_objects_for_sync T_two [''G1'', ''G2''] = Inr S_two
   \<and> map_of (groups S_two) (JStr ''g1'') = Some 0
   \<and> heap S_two ! 0 = GraphGroup ''g1'' ''g1'' (Some [(''u1'', 1), (''g3'', 2)])
   \<and> map_of (users S_two) (JStr ''u1'') = Some 1
   \<and> map_of (groups S_two) (JStr ''g3'') = Some 2"
proof -
  have g: "map_of (groups S_two) (JStr ''g1'') = Some 0" by (simp add: S_two_def)
  have h: "heap S_two ! 0 = GraphGroup ''g1'' ''g1'' (Some [(''u1'', 1), (''g3'', 2)])"
    by (simp add: S_two_def)
  from group_linkage [OF quiet_T_two run_both g] h
  have l: "\<forall>k b. map_of [(''u1'', 1), (''g3'', 2)] k = Some b \<longrightarrow>
             map_of (users S_two) (JStr k) = Some b
           \<or> map_of (service_principals S_two) (JStr k) = Some b
           \<or> map_of (groups S_two) (JStr k) = Some b"
    by simp
  from l [rule_format, of "''u1''" 1] have u: "map_of (users S_two) (JStr ''u1'') = Some 1"
    by (simp add: S_two_def)
  from l [rule_format, of "''g3''" 2] have g3: "map_of (groups S_two) (JStr ''g3'') = Some 2"
    by (simp add: S_two_def)
  from select_T_two quiet_T_two [of "[''G1'', ''G2'']"] run_both g h u g3
  show ?thesis by blast
qed

text \<open>
  C7. The traversal is a function defined by recursion over the list of names and, inside,
  over the list of members: it returns for every input. A run that completes has requested
  the members of exactly the groups that the names resolve to, one request per resolved name
  and in their order, so never those of a group met as a member. A group met as a member of
  a resolved group is registered all the same: the result's \<open>groups\<close> mapping has its
  identifier, with a group object of that identifier. And a group of the result that no
  name resolves to has an empty members dictionary, the records of the run bringing no
  members of their own (the queries do not select them).
\<close>

theorem no_recursion:
  "(\<exists>e. get_objects_for_sync T group_names = Inl e)
   \<or> (\<exists>s. get_objects_for_sync T group_names = Inr s
          \<and> fetched s = resolved_ids T group_names
          \<and> length (fetched s) \<le> length group_names
          \<and> (\<forall>name group_info gid ms m i.
                name \<in> set group_names \<longrightarrow> get_group_by_name T name = Inr (Some group_info) \<longrightarrow>
                group_info \<noteq> [] \<longrightarrow> map_of group_info ''id'' = Some gid \<longrightarrow>
                get_group_members T gid = Inr (Some ms) \<longrightarrow> m \<in> set ms \<longrightarrow>
                is_group_record m \<longrightarrow> map_of (strip_none m) ''id'' = Some i \<longrightarrow>
                (\<exists>a j n mm. map_of (groups s) i = Some a
                    \<and> heap s ! a = GraphGroup j n mm \<and> i = JStr j))
          \<and> (no_members_brought T group_names \<longrightarrow>
               (\<forall>g a. map_of (groups s) g = Some a \<longrightarrow> g \<notin> set (resolved_ids T group_names) \<longrightarrow>
                  (\<exists>i n. heap s ! a = GraphGroup i n (Some [])))))"
proof (cases "get_objects_for_sync T group_names")
  case (Inl e)
  then show ?thesis by blast
next
  case (Inr s)
  then have run: "for_group_names T group_names GraphSyncObject = Inr s"
    by (simp add: get_objects_for_sync_def)
  from for_group_names_fetched [OF run]
  have f: "fetched s = resolved_ids T group_names" by (simp add: GraphSyncObject_def)
  have l: "length (fetched s) \<le> length group_names"
    using f length_resolved_ids [of T group_names] by simp
  have reg: "\<forall>name group_info gid ms m i.
      name \<in> set group_names \<longrightarrow> get_group_by_name T name = Inr (Some group_info) \<longrightarrow>
      group_info \<noteq> [] \<longrightarrow> map_of group_info ''id'' = Some gid \<longrightarrow>
      get_group_members T gid = Inr (Some ms) \<longrightarrow> m \<in> set ms \<longrightarrow>
      is_group_record m \<longrightarrow> map_of (strip_none m) ''id'' = Some i \<longrightarrow>
      (\<exists>a j n mm. map_of (groups s) i = Some a \<and> heap s ! a = GraphGroup j n mm \<and> i = JStr j)"
    using nested_groups_registered [OF Inr] by blast
  have emp: "\<forall>g a. map_of (groups s) g = Some a \<longrightarrow> g \<notin> set (resolved_ids T group_names) \<longrightarrow>
          (\<exists>i n. heap s ! a = GraphGroup i n (Some []))" if "no_members_brought T group_names"
  proof -
    from for_group_names_wf [OF run wf_state_init that] have "unfetched_empty s"
      by (simp add: wf_state_def)
    then show ?thesis unfolding unfetched_empty_def f by blast
  qed
  from Inr f l reg emp show ?thesis by blast
qed

theorem no_recursion_witness:
  "obeys_select T_two \<and> no_members_brought T_two [''G1'']
   \<and> get_objects_for_sync T_two [''G1''] = Inr S_one
   \<and> fetched S_one = [JStr ''g1'']
   \<and> is_group_record ((''@odata.type'', JStr ''#microsoft.graph.group'') # group_rec ''g3'')
   \<and> (\<exists>j n mm. map_of (groups S_one) (JStr ''g3'') = Some 2
          \<and> heap S_one ! 2 = GraphGroup j n mm \<and> JStr ''g3'' = JStr j)
   \<and> JStr ''g3'' \<notin> set (resolved_ids T_two [''G1''])
   \<and> (\<exists>i n. heap S_one ! 2 = GraphGroup i n (Some []))"
proof -
  let ?m = "(''@odata.type'', JStr ''#microsoft.graph.group'') # group_rec ''g3''"
  have f: "fetched S_one = [JStr ''g1'']" by (simp add: S_one_def)
  have g: "map_of (groups S_one) (JStr ''g3'') = Some 2" by (simp add: S_one_def)
  have nm: "''G1'' \<in> set [''G1'']" by simp
  have gi: "get_group_by_name T_two ''G1'' = Inr (Some (group_rec ''g1''))"
    by (simp add: get_group_by_name_def T_two_def)
  have ne: "group_rec ''g1'' \<noteq> []" and gid: "map_of (group_rec ''g1'') ''id'' = Some (JStr ''g1'')"
    by (simp_all add: group_rec_def)
  have ms: "get_group_members T_two (JStr ''g1'') = Inr (Some [user_rec ''u1'', ?m])"
    by (simp add: get_group_members_def T_two_def)
  have mem: "?m \<in> set [user_rec ''u1'', ?m]" by simp
  have gr: "is_group_record ?m" by (simp add: is_group_record_def map_of_strip_none)
  have i: "map_of (strip_none ?m) ''id'' = Some (JStr ''g3'')"
    by (simp add: map_of_strip_none group_rec_def)
  from no_recursion [of T_two "[''G1'']"] run_one
  have r: "fetched S_one = resolved_ids T_two [''G1'']"
    and reg: "\<forall>name group_info gid ms m i.
      name \<in> set [''G1''] \<longrightarrow> get_group_by_name T_two name = Inr (Some group_info) \<longrightarrow>
      group_info \<noteq> [] \<longrightarrow> map_of group_info ''id'' = Some gid \<longrightarrow>
      get_group_members T_two gid = Inr (Some ms) \<longrightarrow> m \<in> set ms \<longrightarrow>
      is_group_record m \<longrightarrow> map_of (strip_none m) ''id'' = Some i \<longrightarrow>
      (\<exists>a j n mm. map_of (groups S_one) i = Some a
          \<and> heap S_one ! a = GraphGroup j n mm \<and> i = JStr j)"
    and e: "no_members_brought T_two [''G1''] \<longrightarrow>
      (\<forall>g a. map_of (groups S_one) g = Some a \<longrightarrow> g \<notin> set (resolved_ids T_two [''G1'']) \<longrightarrow>
              (\<exists>i n. heap S_one ! a = GraphGroup i n (Some [])))"
    by simp_all
  from reg nm gi ne gid ms mem gr i
  have "\<exists>a j n mm. map_of (groups S_one) (JStr ''g3'') = Some a
          \<and> heap S_one ! a = GraphGroup j n mm \<and> JStr ''g3'' = JStr j"
    by blast
  with g have 1: "\<exists>j n mm. map_of (groups S_one) (JStr ''g3'') = Some 2
          \<and> heap S_one ! 2 = GraphGroup j n mm \<and> JStr ''g3'' = JStr j"
    by auto
  from r f have "resolved_ids T_two [''G1''] = [JStr ''g1'']" by simp
  then have nr: "JStr ''g3'' \<notin> set (resolved_ids T_two [''G1''])" by simp
  from e quiet_T_two g nr have 2: "\<exists>i n. heap S_one ! 2 = GraphGroup i n (Some [])" by blast
  from select_T_two quiet_T_two [of "[''G1'']"] run_one f gr 1 nr 2 show ?thesis by blast
qed

end
